theory Spec2Isabelle
  imports Main "HOL-Library.AList" "HOL-Library.Multiset"
begin

section \<open>Data model\<close>

text \<open>
  Python exceptions that the modelled code can raise. \<open>NetworkXError\<close> is the exception
  of the graph library (removing a node or an edge that is not there).
\<close>

datatype py_error =
  KeyError | AttributeError | TypeError | ValueError | NetworkXError | ZeroDivisionError

text \<open>The attribute values that the graph stores, and Python's \<open>None\<close>.\<close>

datatype pyval = PyNone | PyStr string | PyInt int | PyBool bool

text \<open>
  Modelled from the spec: the Reaction model is not part of the two source files. The
  spec describes it as a value with a \<open>type\<close> tag, an ordered list of \<open>reactives\<close>, an
  ordered list of \<open>products\<close> and a designated \<open>substrate\<close> (what \<open>get_substrate()\<close>
  returns), compared by value. The Expression model is the type parameter \<open>'e\<close>.
\<close>

record 'e reaction =
  type :: string
  reactives :: "'e list"
  products :: "'e list"
  substrate :: "'e"

section \<open>Food closure: \<open>get_set_closure\<close>\<close>

text \<open>
  The body of the \<open>for r in reactions\<close> loop of \<open>get_set_closure\<close>, on the pair of the
  growing set \<open>s\<close> and the flag \<open>s_updated\<close>.
\<close>

definition closure_step :: "'e reaction \<Rightarrow> 'e set \<times> bool \<Rightarrow> 'e set \<times> bool" where
  "closure_step r st =
     (case st of (s, s_updated) \<Rightarrow>
        if (\<exists>p \<in> set (products r). p \<notin> s) \<and> (\<forall>reactive \<in> set (reactives r). reactive \<in> s)
        then (s \<union> set (products r), True)
        else (s, s_updated))"

text \<open>One full pass: \<open>s_updated = False\<close>, then the \<open>for\<close> loop over the reactions.\<close>

definition closure_pass :: "'e reaction list \<Rightarrow> 'e set \<Rightarrow> 'e set \<times> bool" where
  "closure_pass reactions s = fold closure_step reactions (s, False)"

definition all_products_of :: "'e reaction list \<Rightarrow> 'e set" where
  "all_products_of reactions = (\<Union>r \<in> set reactions. set (products r))"

lemma fold_closure_step_grows:
  "fold closure_step rs (s, b) = (s', b') \<Longrightarrow>
     s \<subseteq> s' \<and> s' \<subseteq> s \<union> all_products_of rs \<and> (b \<longrightarrow> b') \<and> (b' \<and> \<not> b \<longrightarrow> s \<noteq> s')"
proof (induction rs arbitrary: s b)
  case Nil
  then show ?case by simp
next
  case (Cons r rs)
  obtain s1 b1 where st: "closure_step r (s, b) = (s1, b1)"
    by (cases "closure_step r (s, b)")
  from st have 1: "s \<subseteq> s1 \<and> s1 \<subseteq> s \<union> set (products r) \<and> (b \<longrightarrow> b1) \<and> (b1 \<and> \<not> b \<longrightarrow> s \<noteq> s1)"
    by (auto simp: closure_step_def split: if_splits)
  from Cons.prems st have "fold closure_step rs (s1, b1) = (s', b')" by simp
  from Cons.IH[OF this]
  have 2: "s1 \<subseteq> s' \<and> s' \<subseteq> s1 \<union> all_products_of rs \<and> (b1 \<longrightarrow> b') \<and> (b' \<and> \<not> b1 \<longrightarrow> s1 \<noteq> s')" .
  have 3: "all_products_of (r # rs) = set (products r) \<union> all_products_of rs"
    by (simp add: all_products_of_def)
  from 1 2 3 show ?case by blast
qed

lemma closure_pass_decreases:
  assumes "closure_pass reactions s = (s', True)"
  shows "card (all_products_of reactions - s') < card (all_products_of reactions - s)"
proof -
  from assms have "fold closure_step reactions (s, False) = (s', True)"
    by (simp add: closure_pass_def)
  from fold_closure_step_grows[OF this]
  have g: "s \<subseteq> s'" "s' \<subseteq> s \<union> all_products_of reactions" "s \<noteq> s'" by auto
  have fin: "finite (all_products_of reactions - s)"
    by (simp add: all_products_of_def)
  from g have "all_products_of reactions - s' \<subset> all_products_of reactions - s" by blast
  with fin show ?thesis by (rule psubset_card_mono)
qed

text \<open>
  The \<open>while s_updated\<close> loop. The flag starts as \<open>True\<close>, so the first pass always runs;
  afterwards a pass is repeated as long as the previous one changed the set. Each
  repeated pass has added a product that was missing, and only products of the given
  reactions are ever added, which is the termination argument.
\<close>

function closure_loop :: "'e reaction list \<Rightarrow> 'e set \<Rightarrow> 'e set" where
  "closure_loop reactions s =
     (case closure_pass reactions s of (s', s_updated) \<Rightarrow>
        if s_updated then closure_loop reactions s' else s')"
  by pat_completeness auto
termination
  by (relation "measure (\<lambda>(reactions, s). card (all_products_of reactions - s))")
     (auto dest!: sym[of "(_, _)" "closure_pass _ _"] intro: closure_pass_decreases)

declare closure_loop.simps [simp del]

text \<open>
  \<open>get_set_closure(s, reactions)\<close>. The reactions are a Python set; the list is the order
  in which the \<open>for\<close> loop visits them, and every order is covered.
\<close>

definition get_set_closure :: "'e set \<Rightarrow> 'e reaction list \<Rightarrow> 'e set" where
  "get_set_closure s reactions = closure_loop reactions s"

text \<open>A set is closed under the reactions when every enabled reaction has its products in it.\<close>

definition closed_under :: "'e reaction list \<Rightarrow> 'e set \<Rightarrow> bool" where
  "closed_under reactions t =
     (\<forall>r \<in> set reactions. set (reactives r) \<subseteq> t \<longrightarrow> set (products r) \<subseteq> t)"

section \<open>The graph: a model of the \<open>networkx.DiGraph\<close> the class wraps\<close>

text \<open>
  Node keys are the Expression and Reaction values themselves. An Expression is never
  equal to a Reaction, so the keys form a disjoint sum.
\<close>

datatype 'e node = Expression 'e | Reaction "'e reaction"

text \<open>
  A Python dict is an association list with distinct keys in insertion order:
  \<open>map_of\<close> reads it, \<open>AList.update\<close> writes it (an existing key keeps its place, a new
  key goes to the end), \<open>AList.delete\<close> removes a key.
\<close>

type_synonym attrs = "(string \<times> pyval) list"

definition dict_get :: "('k \<times> 'v) list \<Rightarrow> 'k \<Rightarrow> py_error + 'v" where
  "dict_get d k = (case map_of d k of None \<Rightarrow> Inl KeyError | Some v \<Rightarrow> Inr v)"

definition dict_update :: "('k \<times> 'v) list \<Rightarrow> ('k \<times> 'v) list \<Rightarrow> ('k \<times> 'v) list" where
  "dict_update d kvs = fold (\<lambda>kv. AList.update (fst kv) (snd kv)) kvs d"

text \<open>
  The directed graph keeps one attribute dict per node and one per edge; an edge is keyed
  by its pair of endpoints. \<open>ReactionGraph\<close> has this graph as its only field.
\<close>

record 'e digraph =
  nodes :: "('e node \<times> attrs) list"
  edges :: "(('e node \<times> 'e node) \<times> attrs) list"

text \<open>\<open>reset\<close>: \<open>self.graph = nx.DiGraph()\<close>.\<close>

definition reset :: "'e digraph" where
  "reset = \<lparr>nodes = [], edges = []\<rparr>"

text \<open>
  \<open>DiGraph.add_node(n, **attr)\<close>: a new node gets a fresh dict holding the attributes, an
  existing node has its dict updated.
\<close>

definition add_node :: "'e digraph \<Rightarrow> 'e node \<Rightarrow> attrs \<Rightarrow> 'e digraph" where
  "add_node g n attr =
     g\<lparr>nodes := AList.update n
          (dict_update (case map_of (nodes g) n of None \<Rightarrow> [] | Some d \<Rightarrow> d) attr) (nodes g)\<rparr>"

text \<open>
  \<open>DiGraph.add_edge(u, v, **attr)\<close>: endpoints that are not nodes yet are added with an
  empty dict; the edge's dict is created or updated.
\<close>

definition ensure_node :: "'e digraph \<Rightarrow> 'e node \<Rightarrow> 'e digraph" where
  "ensure_node g n = (case map_of (nodes g) n of None \<Rightarrow> g\<lparr>nodes := nodes g @ [(n, [])]\<rparr> | Some d \<Rightarrow> g)"

definition add_edge :: "'e digraph \<Rightarrow> 'e node \<Rightarrow> 'e node \<Rightarrow> attrs \<Rightarrow> 'e digraph" where
  "add_edge g u v attr =
     (let g' = ensure_node (ensure_node g u) v
      in g'\<lparr>edges := AList.update (u, v)
           (dict_update (case map_of (edges g') (u, v) of None \<Rightarrow> [] | Some d \<Rightarrow> d) attr)
           (edges g')\<rparr>)"

section \<open>\<open>get_node_attribute\<close>, \<open>get_occurrences\<close>, \<open>add_reaction\<close>\<close>

text \<open>
  \<open>self.graph.nodes(attribute)[node]\<close>: the library's node data view looks the node up in
  the node dict, which raises \<open>KeyError\<close> for a node that is not in the graph, and then
  returns the attribute if the node's dict has it and the view's default, \<open>None\<close>,
  otherwise.
\<close>

definition nodes_data_getitem :: "'e digraph \<Rightarrow> string \<Rightarrow> 'e node \<Rightarrow> py_error + pyval" where
  "nodes_data_getitem g attribute node =
     (case dict_get (nodes g) node of
        Inl e \<Rightarrow> Inl e
      | Inr ddict \<Rightarrow> Inr (case map_of ddict attribute of None \<Rightarrow> PyNone | Some v \<Rightarrow> v))"

text \<open>
  \<open>get_node_attribute(node, attribute, default=None)\<close>: a \<open>KeyError\<close> of the lookup is
  raised again when \<open>default is None\<close> and replaced by the default otherwise.
\<close>

definition get_node_attribute :: "'e digraph \<Rightarrow> 'e node \<Rightarrow> string \<Rightarrow> pyval \<Rightarrow> py_error + pyval" where
  "get_node_attribute g node attribute default_value =
     (case nodes_data_getitem g attribute node of
        Inr v \<Rightarrow> Inr v
      | Inl e \<Rightarrow>
          if e = KeyError
          then (if default_value = PyNone then Inl e else Inr default_value)
          else Inl e)"

definition get_occurrences :: "'e digraph \<Rightarrow> 'e node \<Rightarrow> py_error + pyval" where
  "get_occurrences g reaction = get_node_attribute g reaction ''occurrences'' (PyInt 0)"

text \<open>\<open>occurrences + 1\<close> on a Python value: integers and booleans add, anything else raises.\<close>

fun py_add_one :: "pyval \<Rightarrow> py_error + pyval" where
  "py_add_one (PyInt n) = Inr (PyInt (n + 1))"
| "py_add_one (PyBool b) = Inr (PyInt ((if b then 1 else 0) + 1))"
| "py_add_one PyNone = Inl TypeError"
| "py_add_one (PyStr s) = Inl TypeError"

text \<open>The two \<open>for\<close> loop bodies of \<open>add_reaction\<close>.\<close>

definition add_reactive :: "'e reaction \<Rightarrow> 'e \<Rightarrow> 'e digraph \<Rightarrow> 'e digraph" where
  "add_reactive reaction_node r g =
     (let g1 = add_node g (Expression r) [(''node_type'', PyStr ''expression'')];
          is_substrate = (r = substrate reaction_node)
      in add_edge g1 (Expression r) (Reaction reaction_node) [(''substrate'', PyBool is_substrate)])"

definition add_product :: "'e reaction \<Rightarrow> 'e \<Rightarrow> 'e digraph \<Rightarrow> 'e digraph" where
  "add_product reaction_node p g =
     (let g1 = add_node g (Expression p) [(''node_type'', PyStr ''expression'')]
      in add_edge g1 (Reaction reaction_node) (Expression p) [(''substrate'', PyBool False)])"

definition add_reaction :: "'e digraph \<Rightarrow> 'e reaction \<Rightarrow> py_error + 'e digraph" where
  "add_reaction g reaction_node =
     (case get_occurrences g (Reaction reaction_node) of
        Inl e \<Rightarrow> Inl e
      | Inr occurrences \<Rightarrow>
          (case py_add_one occurrences of
             Inl e \<Rightarrow> Inl e
           | Inr occurrences1 \<Rightarrow>
               (let g1 = add_node g (Reaction reaction_node)
                           [(''reaction_type'', PyStr (type reaction_node)),
                            (''occurrences'', occurrences1),
                            (''node_type'', PyStr ''reaction'')];
                    g2 = fold (add_reactive reaction_node) (reactives reaction_node) g1;
                    g3 = fold (add_product reaction_node) (products reaction_node) g2
                in Inr g3)))"

text \<open>A sequence of \<open>add_reaction\<close> calls; the first exception ends it.\<close>

fun add_reactions :: "'e digraph \<Rightarrow> 'e reaction list \<Rightarrow> py_error + 'e digraph" where
  "add_reactions g [] = Inr g"
| "add_reactions g (r # rs) =
     (case add_reaction g r of Inl e \<Rightarrow> Inl e | Inr g' \<Rightarrow> add_reactions g' rs)"

section \<open>The RAF solver: \<open>get_raf\<close>\<close>

text \<open>
  \<open>get_nodes(cond)\<close> and the comprehensions over \<open>self.graph.nodes(data=True)\<close>: the nodes
  whose key and dict satisfy a condition, in node order. The condition indexes the dict,
  so it can raise.
\<close>

fun get_nodes :: "('n \<Rightarrow> attrs \<Rightarrow> py_error + bool) \<Rightarrow> ('n \<times> attrs) list \<Rightarrow> py_error + 'n list" where
  "get_nodes cond [] = Inr []"
| "get_nodes cond ((n, d) # nds) =
     (case cond n d of
        Inl e \<Rightarrow> Inl e
      | Inr b \<Rightarrow>
          (case get_nodes cond nds of
             Inl e \<Rightarrow> Inl e
           | Inr ns \<Rightarrow> Inr (if b then n # ns else ns)))"

text \<open>\<open>d['node_type'] == 'reaction' and d['reaction_type'] == 'reduce'\<close>.\<close>

definition is_reducing_reaction :: "'n \<Rightarrow> attrs \<Rightarrow> py_error + bool" where
  "is_reducing_reaction n d =
     (case dict_get d ''node_type'' of
        Inl e \<Rightarrow> Inl e
      | Inr t \<Rightarrow>
          if t = PyStr ''reaction''
          then (case dict_get d ''reaction_type'' of
                  Inl e \<Rightarrow> Inl e
                | Inr rt \<Rightarrow> Inr (rt = PyStr ''reduce''))
          else Inr False)"

definition get_all_reducing_reactions :: "'e digraph \<Rightarrow> py_error + 'e node list" where
  "get_all_reducing_reactions g = get_nodes is_reducing_reaction (nodes g)"

text \<open>
  The solver reads \<open>r.reactives\<close> and \<open>r.products\<close> of every node it got; a node that is
  not a Reaction has no such attribute.
\<close>

fun as_reactions :: "'e node list \<Rightarrow> py_error + 'e reaction list" where
  "as_reactions [] = Inr []"
| "as_reactions (Expression e # ns) = Inl AttributeError"
| "as_reactions (Reaction r # ns) =
     (case as_reactions ns of Inl e \<Rightarrow> Inl e | Inr rs \<Rightarrow> Inr (r # rs))"

definition reductions_of :: "'e digraph \<Rightarrow> py_error + 'e reaction list" where
  "reductions_of g =
     (case get_all_reducing_reactions g of Inl e \<Rightarrow> Inl e | Inr ns \<Rightarrow> as_reactions ns)"

text \<open>
  One round of the \<open>while\<close> loop of \<open>get_raf\<close>: the reactions of \<open>raf\<close> that have every
  reactive in the food closure or among the products of \<open>raf\<close>, and some product that is
  a reactive of \<open>raf\<close> and not in the food closure.
\<close>

definition raf_round :: "'e set \<Rightarrow> 'e reaction list \<Rightarrow> 'e reaction list" where
  "raf_round food_cl raf =
     (let all_reactives = (\<Union>r \<in> set raf. set (reactives r));
          all_products = (\<Union>r \<in> set raf. set (products r))
      in filter (\<lambda>r.
            (\<forall>x \<in> set (reactives r). x \<in> food_cl \<or> x \<in> all_products) \<and>
            (\<exists>x \<in> set (products r). x \<in> all_reactives \<and> x \<notin> food_cl)) raf)"

lemma raf_round_length: "length (raf_round food_cl raf) \<le> length raf"
  by (simp add: raf_round_def Let_def)

lemma filter_same_length: "length (filter P xs) = length xs \<Longrightarrow> filter P xs = xs"
proof (induction xs)
  case Nil
  then show ?case by simp
next
  case (Cons x xs)
  show ?case
  proof (cases "P x")
    case True
    with Cons show ?thesis by simp
  next
    case False
    with Cons.prems have "length (filter P xs) = Suc (length xs)" by simp
    with length_filter_le[of P xs] show ?thesis by simp
  qed
qed

lemma raf_round_same_length:
  "length (raf_round food_cl raf) = length raf \<Longrightarrow> raf_round food_cl raf = raf"
  unfolding raf_round_def Let_def by (rule filter_same_length)

text \<open>
  The loop \<open>while raf != old_raf\<close>, with \<open>old_raf = None\<close> before the first round. The
  candidates are a Python set, compared as a set; a round only removes reactions.
\<close>

function raf_loop :: "'e set \<Rightarrow> 'e reaction list \<Rightarrow> 'e reaction list option \<Rightarrow> 'e reaction list" where
  "raf_loop food_cl raf old_raf =
     (if Some (set raf) \<noteq> map_option set old_raf
      then raf_loop food_cl (raf_round food_cl raf) (Some raf)
      else raf)"
  by pat_completeness auto
termination
proof (relation "measure (\<lambda>(food_cl, raf, old_raf).
          2 * length raf + (if Some (set raf) \<noteq> map_option set old_raf then 1 else 0))")
  show "wf (measure (\<lambda>(food_cl, raf, old_raf).
          2 * length raf + (if Some (set raf) \<noteq> map_option set old_raf then 1 else 0)))"
    by (rule wf_measure)
next
  fix food_cl :: "'e set" and raf :: "'e reaction list" and old_raf :: "'e reaction list option"
  assume c: "Some (set raf) \<noteq> map_option set old_raf"
  let ?new = "raf_round food_cl raf"
  have "2 * length ?new + (if Some (set ?new) \<noteq> Some (set raf) then 1 else 0)
          < 2 * length raf + 1"
  proof (cases "length ?new = length raf")
    case True
    then have "?new = raf" by (rule raf_round_same_length)
    then show ?thesis by simp
  next
    case False
    with raf_round_length[of food_cl raf] have "length ?new < length raf" by simp
    then show ?thesis by simp
  qed
  with c show "((food_cl, ?new, Some raf), (food_cl, raf, old_raf))
      \<in> measure (\<lambda>(food_cl, raf, old_raf).
          2 * length raf + (if Some (set raf) \<noteq> map_option set old_raf then 1 else 0))"
    by (simp del: option.inject)
qed

declare raf_loop.simps [simp del]

text \<open>
  \<open>get_raf(food_set)\<close>. The logging loop after the fixed point changes nothing and is
  left out.
\<close>

definition get_raf :: "'e digraph \<Rightarrow> 'e set \<Rightarrow> py_error + 'e reaction list" where
  "get_raf g food_set =
     (case reductions_of g of
        Inl e \<Rightarrow> Inl e
      | Inr reductions \<Rightarrow>
          (let food_cl = get_set_closure food_set reductions
           in Inr (raf_loop food_cl reductions None)))"

section \<open>Well-formed graphs and the bipartite property\<close>

text \<open>The \<open>node_type\<close> attribute of a node, if the node and the attribute exist.\<close>

definition node_type_of :: "'e digraph \<Rightarrow> 'e node \<Rightarrow> pyval option" where
  "node_type_of g n =
     (case map_of (nodes g) n of None \<Rightarrow> None | Some d \<Rightarrow> map_of d ''node_type'')"

text \<open>
  Every edge joins one node of type \<open>expression\<close> and one node of type \<open>reaction\<close>.
\<close>

definition bipartite :: "'e digraph \<Rightarrow> bool" where
  "bipartite g =
     (\<forall>uv \<in> set (map fst (edges g)).
        {node_type_of g (fst uv), node_type_of g (snd uv)} =
        {Some (PyStr ''expression''), Some (PyStr ''reaction'')})"

text \<open>
  What \<open>add_reaction\<close> maintains: the attributes of a node fit its key, an edge joins
  an Expression and a Reaction that are nodes of the graph, and keys are not repeated.
\<close>

definition node_ok :: "'e node \<Rightarrow> attrs \<Rightarrow> bool" where
  "node_ok n d =
     (case n of
        Expression e \<Rightarrow> map_of d ''node_type'' = Some (PyStr ''expression'')
      | Reaction r \<Rightarrow>
          map_of d ''node_type'' = Some (PyStr ''reaction'') \<and>
          map_of d ''reaction_type'' = Some (PyStr (type r)) \<and>
          (\<exists>k. map_of d ''occurrences'' = Some (PyInt k)))"

fun opposite :: "'e node \<Rightarrow> 'e node \<Rightarrow> bool" where
  "opposite (Expression e) (Reaction r) = True"
| "opposite (Reaction r) (Expression e) = True"
| "opposite u v = False"

definition wf_graph :: "'e digraph \<Rightarrow> bool" where
  "wf_graph g =
     (distinct (map fst (nodes g)) \<and> distinct (map fst (edges g)) \<and>
      (\<forall>n d. map_of (nodes g) n = Some d \<longrightarrow> node_ok n d) \<and>
      (\<forall>u v d. map_of (edges g) (u, v) = Some d \<longrightarrow>
         opposite u v \<and> map_of (nodes g) u \<noteq> None \<and> map_of (nodes g) v \<noteq> None))"

section \<open>Structural mutators: \<open>remove_selfloop\<close>\<close>

text \<open>
  \<open>DiGraph.remove_nodes_from(nodes)\<close>: every listed node that is in the graph is removed
  together with the edges that start or end at it; a listed node that is not in the graph
  is skipped.
\<close>

definition remove_node_silent :: "'e node \<Rightarrow> 'e digraph \<Rightarrow> 'e digraph" where
  "remove_node_silent n g =
     \<lparr>nodes = AList.delete n (nodes g),
      edges = filter (\<lambda>e. fst (fst e) \<noteq> n \<and> snd (fst e) \<noteq> n) (edges g)\<rparr>"

definition remove_nodes_from :: "'e digraph \<Rightarrow> 'e node list \<Rightarrow> 'e digraph" where
  "remove_nodes_from g ns = fold remove_node_silent ns g"

text \<open>
  \<open>d['node_type'] == 'reaction' and n.reactives == n.products\<close>: the two lists are
  compared as Python compares sequences, element by element in order. A node that is
  tagged as a reaction but is not a Reaction has no \<open>reactives\<close>.
\<close>

definition is_selfloop :: "'e node \<Rightarrow> attrs \<Rightarrow> py_error + bool" where
  "is_selfloop n d =
     (case dict_get d ''node_type'' of
        Inl e \<Rightarrow> Inl e
      | Inr t \<Rightarrow>
          if t = PyStr ''reaction''
          then (case n of
                  Reaction r \<Rightarrow> Inr (reactives r = products r)
                | Expression e \<Rightarrow> Inl AttributeError)
          else Inr False)"

definition remove_selfloop :: "'e digraph \<Rightarrow> py_error + 'e digraph" where
  "remove_selfloop g =
     (case get_nodes is_selfloop (nodes g) of
        Inl e \<Rightarrow> Inl e
      | Inr ns \<Rightarrow> Inr (remove_nodes_from g ns))"

text \<open>A Reaction whose list of reactives is its list of products.\<close>

fun selfloop :: "'e node \<Rightarrow> bool" where
  "selfloop (Reaction r) = (reactives r = products r)"
| "selfloop (Expression e) = False"

section \<open>\<open>PoolFeeder\<close>\<close>

text \<open>
  Modelled from the spec: the pool and the Expression model are not part of the two
  source files. The feeder uses \<open>f.atoms()\<close>, \<open>pool.remove(a)\<close> and \<open>pool.append(f)\<close>;
  they are parameters here: \<open>atoms\<close> gives the constituent pieces of a molecule,
  \<open>pool_remove\<close> removes one expression from the pool or raises, \<open>pool_append\<close> adds one.
\<close>

text \<open>\<open>for a in f.atoms(): pool.remove(a)\<close>.\<close>

fun remove_atoms :: "('e \<Rightarrow> 'p \<Rightarrow> py_error + 'p) \<Rightarrow> 'e list \<Rightarrow> 'p \<Rightarrow> py_error + 'p" where
  "remove_atoms pool_remove [] pool = Inr pool"
| "remove_atoms pool_remove (a # as) pool =
     (case pool_remove a pool of
        Inl e \<Rightarrow> Inl e
      | Inr pool' \<Rightarrow> remove_atoms pool_remove as pool')"

text \<open>\<open>for f in self.food: ...; pool.append(f)\<close>.\<close>

fun feed :: "('e \<Rightarrow> 'e list) \<Rightarrow> ('e \<Rightarrow> 'p \<Rightarrow> py_error + 'p) \<Rightarrow> ('e \<Rightarrow> 'p \<Rightarrow> 'p) \<Rightarrow>
    'e list \<Rightarrow> 'p \<Rightarrow> py_error + 'p" where
  "feed atoms pool_remove pool_append [] pool = Inr pool"
| "feed atoms pool_remove pool_append (f # food) pool =
     (case remove_atoms pool_remove (atoms f) pool of
        Inl e \<Rightarrow> Inl e
      | Inr pool' \<Rightarrow> feed atoms pool_remove pool_append food (pool_append f pool'))"

text \<open>
  \<open>on_step_computed(pool, ticks)\<close>. The test is \<open>ticks > 0 and ticks % self.period == 0\<close>:
  the remainder is only computed for positive \<open>ticks\<close>, and a period of zero then raises.
\<close>

definition on_step_computed ::
  "('e \<Rightarrow> 'e list) \<Rightarrow> ('e \<Rightarrow> 'p \<Rightarrow> py_error + 'p) \<Rightarrow> ('e \<Rightarrow> 'p \<Rightarrow> 'p) \<Rightarrow>
     'e list \<Rightarrow> int \<Rightarrow> 'p \<Rightarrow> int \<Rightarrow> py_error + 'p" where
  "on_step_computed atoms pool_remove pool_append food period pool ticks =
     (if ticks > 0
      then (if period = 0 then Inl ZeroDivisionError
            else if ticks mod period = 0
                 then feed atoms pool_remove pool_append food pool
                 else Inr pool)
      else Inr pool)"

text \<open>A pool that is a Python list: \<open>list.remove\<close> and \<open>list.append\<close>.\<close>

definition list_remove :: "'e \<Rightarrow> 'e list \<Rightarrow> py_error + 'e list" where
  "list_remove a pool = (if a \<in> set pool then Inr (remove1 a pool) else Inl ValueError)"

definition list_append :: "'e \<Rightarrow> 'e list \<Rightarrow> 'e list" where
  "list_append f pool = pool @ [f]"

section \<open>Repeated insertion\<close>

text \<open>The graph with the \<open>occurrences\<close> attribute of one node set to \<open>k\<close>, all else as it is.\<close>

definition with_occurrences :: "'e node \<Rightarrow> int \<Rightarrow> 'e digraph \<Rightarrow> 'e digraph" where
  "with_occurrences n k g =
     g\<lparr>nodes := map (\<lambda>nd. if fst nd = n
                           then (fst nd, AList.update ''occurrences'' (PyInt k) (snd nd))
                           else nd) (nodes g)\<rparr>"
text \<open>
  A reactive, and a product, of the reaction is in place: its node is tagged as an
  expression and its edge carries the substrate flag that \<open>add_reaction\<close> writes.
\<close>

definition reactive_done :: "'e reaction \<Rightarrow> 'e digraph \<Rightarrow> 'e \<Rightarrow> bool" where
  "reactive_done rn g x =
     ((\<exists>d. map_of (nodes g) (Expression x) = Some d \<and>
           map_of d ''node_type'' = Some (PyStr ''expression'')) \<and>
      (\<exists>de. map_of (edges g) (Expression x, Reaction rn) = Some de \<and>
            map_of de ''substrate'' = Some (PyBool (x = substrate rn))))"

definition product_done :: "'e reaction \<Rightarrow> 'e digraph \<Rightarrow> 'e \<Rightarrow> bool" where
  "product_done rn g p =
     ((\<exists>d. map_of (nodes g) (Expression p) = Some d \<and>
           map_of d ''node_type'' = Some (PyStr ''expression'')) \<and>
      (\<exists>de. map_of (edges g) (Reaction rn, Expression p) = Some de \<and>
            map_of de ''substrate'' = Some (PyBool False)))"

text \<open>The two loops of \<open>add_reaction\<close>, and the attributes it gives the reaction node.\<close>

definition insert_body :: "'e reaction \<Rightarrow> 'e digraph \<Rightarrow> 'e digraph" where
  "insert_body rn g =
     fold (add_product rn) (products rn) (fold (add_reactive rn) (reactives rn) g)"

definition reaction_attrs :: "'e reaction \<Rightarrow> int \<Rightarrow> attrs" where
  "reaction_attrs rn k =
     [(''reaction_type'', PyStr (type rn)), (''occurrences'', PyInt k),
      (''node_type'', PyStr ''reaction'')]"

section \<open>The cycle estimator: \<open>get_maximal_cycle_length\<close>\<close>

text \<open>\<open>DiGraph.successors(v)\<close> and \<open>DiGraph.predecessors(v)\<close>, read off the edge keys.\<close>

definition successors :: "'e digraph \<Rightarrow> 'e node \<Rightarrow> 'e node list" where
  "successors g v = map (\<lambda>e. snd (fst e)) (filter (\<lambda>e. fst (fst e) = v) (edges g))"

definition predecessors :: "'e digraph \<Rightarrow> 'e node \<Rightarrow> 'e node list" where
  "predecessors g v = map (\<lambda>e. fst (fst e)) (filter (\<lambda>e. snd (fst e) = v) (edges g))"

text \<open>
  \<open>nx.shortest_path(G, n)\<close> without a target and without weights is the library's
  breadth-first search from \<open>n\<close>: a dict from every node that can be reached to one
  shortest path to it, the path being the list of its nodes from \<open>n\<close> on. The search
  keeps the dict \<open>paths\<close> and the nodes found in the current round, \<open>nextlevel\<close>:

  \<^verbatim>\<open>for v in thislevel:\<close>
  \<^verbatim>\<open>    for w in adj[v]:\<close>
  \<^verbatim>\<open>        if w not in paths:\<close>
  \<^verbatim>\<open>            paths[w] = paths[v] + [w]\<close>
  \<^verbatim>\<open>            nextlevel[w] = 1\<close>
\<close>

type_synonym 'e paths = "('e node \<times> 'e node list) list"

definition path_of :: "'e paths \<Rightarrow> 'e node \<Rightarrow> 'e node list" where
  "path_of paths v = (case map_of paths v of None \<Rightarrow> [] | Some p \<Rightarrow> p)"

definition visit ::
  "'e node list \<Rightarrow> 'e node \<Rightarrow> 'e paths \<times> 'e node list \<Rightarrow> 'e paths \<times> 'e node list" where
  "visit pv w st =
     (case st of (paths, nextlevel) \<Rightarrow>
        if w \<in> fst ` set paths then (paths, nextlevel)
        else (paths @ [(w, pv @ [w])], nextlevel @ [w]))"

definition expand ::
  "'e digraph \<Rightarrow> 'e node \<Rightarrow> 'e paths \<times> 'e node list \<Rightarrow> 'e paths \<times> 'e node list" where
  "expand g v st = fold (visit (path_of (fst st) v)) (successors g v) st"

lemma visit_simps:
  "w \<in> fst ` set ps \<Longrightarrow> visit pv w (ps, nl) = (ps, nl)"
  "w \<notin> fst ` set ps \<Longrightarrow> visit pv w (ps, nl) = (ps @ [(w, pv @ [w])], nl @ [w])"
  by (simp_all add: visit_def)

lemma grows_trans:
  assumes "A \<subseteq> B" "B \<subseteq> A \<union> S" "n1 \<noteq> n0 \<longrightarrow> A \<noteq> B" "n0 \<noteq> [] \<longrightarrow> n1 \<noteq> []" "S \<subseteq> T"
    and "B \<subseteq> C \<and> C \<subseteq> B \<union> T \<and> (n2 \<noteq> n1 \<longrightarrow> B \<noteq> C) \<and> (n1 \<noteq> [] \<longrightarrow> n2 \<noteq> [])"
  shows "A \<subseteq> C \<and> C \<subseteq> A \<union> T \<and> (n2 \<noteq> n0 \<longrightarrow> A \<noteq> C) \<and> (n0 \<noteq> [] \<longrightarrow> n2 \<noteq> [])"
proof (intro conjI)
  from assms(6) have bc: "B \<subseteq> C" and cb: "C \<subseteq> B \<union> T"
    and n21: "n2 \<noteq> n1 \<longrightarrow> B \<noteq> C" and n12: "n1 \<noteq> [] \<longrightarrow> n2 \<noteq> []"
    by simp_all
  from assms(1) bc show ac: "A \<subseteq> C" by (rule subset_trans)
  from cb assms(2) assms(5) show "C \<subseteq> A \<union> T" by blast
  show "n2 \<noteq> n0 \<longrightarrow> A \<noteq> C"
  proof
    assume d: "n2 \<noteq> n0"
    show "A \<noteq> C"
    proof (cases "n1 = n0")
      case False
      with assms(3) have "A \<noteq> B" by simp
      with assms(1) bc show ?thesis by blast
    next
      case True
      with d n21 have "B \<noteq> C" by simp
      with assms(1) bc show ?thesis by blast
    qed
  qed
  from assms(4) n12 show "n0 \<noteq> [] \<longrightarrow> n2 \<noteq> []" by simp
qed

lemma fold_visit_grows:
  "fold (visit pv) ws (ps, nl) = (ps', nl') \<Longrightarrow>
     fst ` set ps \<subseteq> fst ` set ps' \<and> fst ` set ps' \<subseteq> fst ` set ps \<union> set ws \<and>
     (nl' \<noteq> nl \<longrightarrow> fst ` set ps \<noteq> fst ` set ps') \<and> (nl \<noteq> [] \<longrightarrow> nl' \<noteq> [])"
proof (induction ws arbitrary: ps nl)
  case Nil
  then show ?case by simp
next
  case (Cons w ws)
  have sub: "set ws \<subseteq> set (w # ws)" by auto
  show ?case
  proof (cases "w \<in> fst ` set ps")
    case True
    with Cons.prems have "fold (visit pv) ws (ps, nl) = (ps', nl')"
      by (simp add: visit_simps(1))
    from Cons.IH[OF this]
    have ih: "fst ` set ps \<subseteq> fst ` set ps'" "fst ` set ps' \<subseteq> fst ` set ps \<union> set ws"
        "nl' \<noteq> nl \<longrightarrow> fst ` set ps \<noteq> fst ` set ps'" "nl \<noteq> [] \<longrightarrow> nl' \<noteq> []"
      by simp_all
    from ih(2) sub have "fst ` set ps' \<subseteq> fst ` set ps \<union> set (w # ws)" by blast
    with ih(1,3,4) show ?thesis by (intro conjI)
  next
    case False
    let ?ps1 = "ps @ [(w, pv @ [w])]"
    from False Cons.prems have "fold (visit pv) ws (?ps1, nl @ [w]) = (ps', nl')"
      by (simp add: visit_simps(2))
    from Cons.IH[OF this]
    have ih: "fst ` set ?ps1 \<subseteq> fst ` set ps' \<and> fst ` set ps' \<subseteq> fst ` set ?ps1 \<union> set (w # ws) \<and>
        (nl' \<noteq> nl @ [w] \<longrightarrow> fst ` set ?ps1 \<noteq> fst ` set ps') \<and> (nl @ [w] \<noteq> [] \<longrightarrow> nl' \<noteq> [])"
      by auto
    have k: "fst ` set ?ps1 = insert w (fst ` set ps)" by simp
    have 1: "fst ` set ps \<subseteq> fst ` set ?ps1" unfolding k by (rule subset_insertI)
    have 2: "fst ` set ?ps1 \<subseteq> fst ` set ps \<union> set (w # ws)" unfolding k by auto
    have 3: "nl @ [w] \<noteq> nl \<longrightarrow> fst ` set ps \<noteq> fst ` set ?ps1" unfolding k using False by auto
    have 4: "nl \<noteq> [] \<longrightarrow> nl @ [w] \<noteq> []" by simp
    show ?thesis by (rule grows_trans[OF 1 2 3 4 subset_refl ih])
  qed
qed

lemma fold_expand_grows:
  "fold (expand g) vs (ps, nl) = (ps', nl') \<Longrightarrow>
     fst ` set ps \<subseteq> fst ` set ps' \<and>
     fst ` set ps' \<subseteq> fst ` set ps \<union> (\<lambda>e. snd (fst e)) ` set (edges g) \<and>
     (nl' \<noteq> nl \<longrightarrow> fst ` set ps \<noteq> fst ` set ps') \<and> (nl \<noteq> [] \<longrightarrow> nl' \<noteq> [])"
proof (induction vs arbitrary: ps nl)
  case Nil
  then show ?case by simp
next
  case (Cons v vs)
  obtain ps1 nl1 where e: "expand g v (ps, nl) = (ps1, nl1)" by (cases "expand g v (ps, nl)")
  then have "fold (visit (path_of ps v)) (successors g v) (ps, nl) = (ps1, nl1)"
    by (simp add: expand_def)
  from fold_visit_grows[OF this]
  have 1: "fst ` set ps \<subseteq> fst ` set ps1" "fst ` set ps1 \<subseteq> fst ` set ps \<union> set (successors g v)"
    "nl1 \<noteq> nl \<longrightarrow> fst ` set ps \<noteq> fst ` set ps1" "nl \<noteq> [] \<longrightarrow> nl1 \<noteq> []" by simp_all
  have 2: "set (successors g v) \<subseteq> (\<lambda>e. snd (fst e)) ` set (edges g)"
    by (auto simp: successors_def)
  from Cons.prems e have "fold (expand g) vs (ps1, nl1) = (ps', nl')" by simp
  from Cons.IH[OF this] show ?case by (rule grows_trans[OF 1 2])
qed

lemma diff_psubset: "A \<subseteq> A' \<Longrightarrow> A' \<subseteq> A \<union> T \<Longrightarrow> A \<noteq> A' \<Longrightarrow> T - A' \<subset> T - A"
  by blast

lemma bfs_round_decreases:
  assumes f: "fold (expand g) nextlevel (paths, []) = (paths', nextlevel')"
  shows "2 * card ((\<lambda>e. snd (fst e)) ` set (edges g) - fst ` set paths') +
           (if nextlevel' = [] then 0 else 1)
         < 2 * card ((\<lambda>e. snd (fst e)) ` set (edges g) - fst ` set paths) + 1"
proof -
  let ?T = "(\<lambda>e. snd (fst e)) ` set (edges g)"
  from fold_expand_grows[OF f]
  have 1: "fst ` set paths \<subseteq> fst ` set paths'" "fst ` set paths' \<subseteq> fst ` set paths \<union> ?T"
    "nextlevel' \<noteq> [] \<longrightarrow> fst ` set paths \<noteq> fst ` set paths'" by simp_all
  have fin: "finite (?T - fst ` set paths)" by simp
  show ?thesis
  proof (cases "nextlevel' = []")
    case True
    from 1(1) have "?T - fst ` set paths' \<subseteq> ?T - fst ` set paths"
      by (rule Diff_mono[OF subset_refl])
    with fin have "card (?T - fst ` set paths') \<le> card (?T - fst ` set paths)"
      by (rule card_mono)
    with True show ?thesis by simp
  next
    case False
    with 1 have "fst ` set paths \<noteq> fst ` set paths'" by simp
    with 1(1,2) have "?T - fst ` set paths' \<subset> ?T - fst ` set paths"
      by (rule diff_psubset)
    with fin have "card (?T - fst ` set paths') < card (?T - fst ` set paths)"
      by (rule psubset_card_mono)
    with False show ?thesis by simp
  qed
qed

text \<open>
  The \<open>while nextlevel\<close> loop. A round that finds a node adds it to \<open>paths\<close>, and only
  end points of edges are ever added; a round that finds none ends the loop.
\<close>

function single_shortest_path :: "'e digraph \<Rightarrow> 'e node list \<Rightarrow> 'e paths \<Rightarrow> 'e paths" where
  "single_shortest_path g nextlevel paths =
     (if nextlevel = [] then paths
      else (case fold (expand g) nextlevel (paths, []) of
              (paths', nextlevel') \<Rightarrow> single_shortest_path g nextlevel' paths'))"
  by pat_completeness auto
termination
proof (relation "measure (\<lambda>(g, nextlevel, paths).
         2 * card ((\<lambda>e. snd (fst e)) ` set (edges g) - fst ` set paths) +
         (if nextlevel = [] then 0 else 1))")
  show "wf (measure (\<lambda>(g, nextlevel, paths).
         2 * card ((\<lambda>e. snd (fst e)) ` set (edges g) - fst ` set paths) +
         (if nextlevel = [] then 0 else 1)))"
    by (rule wf_measure)
next
  fix g :: "'e digraph" and nextlevel :: "'e node list" and paths x :: "'e paths"
    and y :: "'e node list"
  assume ne: "nextlevel \<noteq> []" and x: "(x, y) = fold (expand g) nextlevel (paths, [])"
  from x have "fold (expand g) nextlevel (paths, []) = (x, y)" by (rule sym)
  from bfs_round_decreases[OF this] ne
  show "((g, y, x), (g, nextlevel, paths))
      \<in> measure (\<lambda>(g, nextlevel, paths).
         2 * card ((\<lambda>e. snd (fst e)) ` set (edges g) - fst ` set paths) +
         (if nextlevel = [] then 0 else 1))"
    by simp
qed

declare single_shortest_path.simps [simp del]

definition shortest_path :: "'e digraph \<Rightarrow> 'e node \<Rightarrow> 'e paths" where
  "shortest_path g source = single_shortest_path g [source] [(source, [source])]"

text \<open>
  \<open>np.argmin\<close> and \<open>np.argmax\<close> of a list of numbers: the first index of a least
  (greatest) element; \<open>ValueError\<close> for the empty list.
\<close>

definition argmin :: "nat list \<Rightarrow> py_error + nat" where
  "argmin xs =
     (if xs = [] then Inl ValueError
      else Inr (length (takeWhile (\<lambda>x. x \<noteq> Min (set xs)) xs)))"

definition argmax :: "nat list \<Rightarrow> py_error + nat" where
  "argmax xs =
     (if xs = [] then Inl ValueError
      else Inr (length (takeWhile (\<lambda>x. x \<noteq> Max (set xs)) xs)))"

text \<open>
  The body of the loop over the nodes: the length of a shortest path from \<open>n\<close> to a
  predecessor of \<open>n\<close>, or nothing when \<open>argmin\<close> raises \<open>ValueError\<close> and the handler
  passes.
\<close>

definition node_cycle_length :: "'e digraph \<Rightarrow> 'e node \<Rightarrow> nat option" where
  "node_cycle_length g n =
     (let shortest_paths = shortest_path g n;
          shortest_paths_to_predecessors =
            map (path_of shortest_paths)
              (filter (\<lambda>n0. n0 \<in> fst ` set shortest_paths) (predecessors g n))
      in case argmin (map length shortest_paths_to_predecessors) of
           Inl e \<Rightarrow> None
         | Inr idx_shortest \<Rightarrow> Some (length (shortest_paths_to_predecessors ! idx_shortest)))"

text \<open>
  \<open>get_maximal_cycle_length\<close>: \<open>(max(cycle_lengths) + 1) // 2\<close>, or \<open>0\<close> when \<open>argmax\<close>
  raises \<open>ValueError\<close>. The list \<open>cycles\<close> is only logged.
\<close>

definition get_maximal_cycle_length :: "'e digraph \<Rightarrow> nat" where
  "get_maximal_cycle_length g =
     (let cycle_lengths = List.map_filter (node_cycle_length g) (map fst (nodes g))
      in case argmax cycle_lengths of
           Inl e \<Rightarrow> 0
         | Inr idx_max \<Rightarrow> (Max (set cycle_lengths) + 1) div 2)"

section \<open>Cycles as the specification describes them\<close>

text \<open>
  The edge relation; \<open>m\<close> can be reached from \<open>n\<close> when a walk leads from \<open>n\<close> to \<open>m\<close>, and
  the shortest-path length is the least number of edges of such a walk.
\<close>

definition edge_rel :: "'e digraph \<Rightarrow> ('e node \<times> 'e node) set" where
  "edge_rel g = fst ` set (edges g)"

definition reachable :: "'e digraph \<Rightarrow> 'e node \<Rightarrow> 'e node \<Rightarrow> bool" where
  "reachable g n m = ((n, m) \<in> (edge_rel g)\<^sup>*)"

definition dist :: "'e digraph \<Rightarrow> 'e node \<Rightarrow> 'e node \<Rightarrow> nat" where
  "dist g n m = (LEAST k. (n, m) \<in> edge_rel g ^^ k)"

text \<open>The predecessors of \<open>n\<close> that can be reached from \<open>n\<close>: each closes a cycle through \<open>n\<close>.\<close>

definition cycle_predecessors :: "'e digraph \<Rightarrow> 'e node \<Rightarrow> 'e node set" where
  "cycle_predecessors g n = {n0 \<in> set (predecessors g n). reachable g n n0}"

text \<open>The minimal cycle through \<open>n\<close>: a shortest path to such a predecessor plus the edge back.\<close>

definition minimal_cycle :: "'e digraph \<Rightarrow> 'e node \<Rightarrow> nat" where
  "minimal_cycle g n = Min ((\<lambda>n0. dist g n n0 + 1) ` cycle_predecessors g n)"

definition nodes_on_cycles :: "'e digraph \<Rightarrow> 'e node set" where
  "nodes_on_cycles g = {n \<in> fst ` set (nodes g). cycle_predecessors g n \<noteq> {}}"

definition raf_level :: "'e digraph \<Rightarrow> nat" where
  "raf_level g =
     (if nodes_on_cycles g = {} then 0
      else (Max (minimal_cycle g ` nodes_on_cycles g) + 1) div 2)"

text \<open>
  The nodes at distance exactly \<open>k\<close> from \<open>n\<close>, and the nodes at distance at most \<open>k\<close>.
\<close>

definition at_dist :: "'e digraph \<Rightarrow> 'e node \<Rightarrow> nat \<Rightarrow> 'e node set" where
  "at_dist g n k = {m. (n, m) \<in> edge_rel g ^^ k \<and> (\<forall>j<k. (n, m) \<notin> edge_rel g ^^ j)}"

definition within :: "'e digraph \<Rightarrow> 'e node \<Rightarrow> nat \<Rightarrow> 'e node set" where
  "within g n k = {m. \<exists>j\<le>k. (n, m) \<in> edge_rel g ^^ j}"

text \<open>
  The state of the search inside a round that started with the dict \<open>ps\<close>, after the
  successors \<open>W\<close> have been looked at; and its state between rounds.
\<close>

definition round_inv ::
  "'e paths \<Rightarrow> nat \<Rightarrow> 'e node set \<Rightarrow> 'e paths \<times> 'e node list \<Rightarrow> bool" where
  "round_inv ps k W st =
     (\<exists>news. fst st = ps @ news \<and> map fst news = snd st \<and> distinct (map fst (fst st)) \<and>
        set (snd st) = W - fst ` set ps \<and> (\<forall>wp \<in> set news. length (snd wp) = k + 2))"

definition level_inv ::
  "'e digraph \<Rightarrow> 'e node \<Rightarrow> nat \<Rightarrow> 'e node list \<Rightarrow> 'e paths \<Rightarrow> bool" where
  "level_inv g n k nl ps =
     (distinct (map fst ps) \<and> fst ` set ps = within g n k \<and>
      (\<forall>mp \<in> set ps. length (snd mp) = dist g n (fst mp) + 1) \<and>
      set nl = at_dist g n k)"

section \<open>The scenario of the specification\<close>

text \<open>
  Food \<open>{A, B}\<close>; \<open>r1\<close> turns \<open>A, B\<close> (substrate \<open>A\<close>) into \<open>C\<close>; \<open>r2\<close> turns \<open>C\<close> into \<open>A\<close>.
\<close>

definition r1 :: "string reaction" where
  "r1 = \<lparr>type = ''reduce'', reactives = [''A'', ''B''], products = [''C''], substrate = ''A''\<rparr>"

definition r2 :: "string reaction" where
  "r2 = \<lparr>type = ''reduce'', reactives = [''C''], products = [''A''], substrate = ''C''\<rparr>"

text \<open>The graph after \<open>add_reaction(r1)\<close> and \<open>add_reaction(r2)\<close> on an empty graph.\<close>

definition g12 :: "string digraph" where
  "g12 = (case add_reactions reset [r1, r2] of Inr g \<Rightarrow> g | Inl e \<Rightarrow> reset)"

text \<open>
  \<open>r3\<close> consumes \<open>C\<close> and produces nothing; \<open>r4\<close> turns \<open>A, B\<close> into \<open>B, A\<close>; \<open>r5\<close> turns
  \<open>A, B\<close> into \<open>A, B\<close>.
\<close>

definition r3 :: "string reaction" where
  "r3 = \<lparr>type = ''reduce'', reactives = [''C''], products = [], substrate = ''C''\<rparr>"

definition r4 :: "string reaction" where
  "r4 = \<lparr>type = ''reduce'', reactives = [''A'', ''B''], products = [''B'', ''A''], substrate = ''A''\<rparr>"

definition r5 :: "string reaction" where
  "r5 = \<lparr>type = ''reduce'', reactives = [''A'', ''B''], products = [''A'', ''B''], substrate = ''A''\<rparr>"

definition g123 :: "string digraph" where
  "g123 = (case add_reactions reset [r1, r2, r3] of Inr g \<Rightarrow> g | Inl e \<Rightarrow> reset)"

definition g4 :: "string digraph" where
  "g4 = (case add_reactions reset [r4] of Inr g \<Rightarrow> g | Inl e \<Rightarrow> reset)"

definition g15 :: "string digraph" where
  "g15 = (case add_reactions reset [r1, r5] of Inr g \<Rightarrow> g | Inl e \<Rightarrow> reset)"

definition g1 :: "string digraph" where
  "g1 = (case add_reactions reset [r1] of Inr g \<Rightarrow> g | Inl e \<Rightarrow> reset)"

text \<open>Atoms of a molecule written as a string: its characters.\<close>

definition chars :: "string \<Rightarrow> string list" where
  "chars f = map (\<lambda>c. [c]) f"

section \<open>Properties of the food closure\<close>

lemma fold_closure_step_within:
  "fold closure_step rs (s, b) = (s', b') \<Longrightarrow> s \<subseteq> t \<Longrightarrow> closed_under rs t \<Longrightarrow> s' \<subseteq> t"
proof (induction rs arbitrary: s b)
  case Nil
  then show ?case by simp
next
  case (Cons r rs)
  obtain s1 b1 where st: "closure_step r (s, b) = (s1, b1)"
    by (cases "closure_step r (s, b)")
  from Cons.prems(3) have cr: "set (reactives r) \<subseteq> t \<longrightarrow> set (products r) \<subseteq> t"
    and crs: "closed_under rs t"
    by (simp_all add: closed_under_def)
  from st Cons.prems(2) cr have sub: "s1 \<subseteq> t"
    by (auto simp: closure_step_def split: if_splits)
  from Cons.prems(1) st have f: "fold closure_step rs (s1, b1) = (s', b')" by simp
  show ?case by (rule Cons.IH[OF f sub crs])
qed

lemma fold_closure_step_quiet:
  "fold closure_step rs (s, b) = (s', False) \<Longrightarrow>
     s' = s \<and> (\<forall>r \<in> set rs. set (reactives r) \<subseteq> s \<longrightarrow> set (products r) \<subseteq> s)"
proof (induction rs arbitrary: s b)
  case Nil
  then show ?case by simp
next
  case (Cons r rs)
  obtain s1 b1 where st: "closure_step r (s, b) = (s1, b1)"
    by (cases "closure_step r (s, b)")
  from Cons.prems st have f: "fold closure_step rs (s1, b1) = (s', False)" by simp
  from fold_closure_step_grows[OF f] have "\<not> b1" by simp
  with st have "s1 = s" and "set (reactives r) \<subseteq> s \<longrightarrow> set (products r) \<subseteq> s"
    by (auto simp: closure_step_def split: if_splits)
  with Cons.IH[OF f] show ?case by simp
qed

lemma closure_loop_superset: "s \<subseteq> closure_loop rs s"
proof (induction rs s rule: closure_loop.induct)
  case (1 reactions s)
  obtain s' u where p: "closure_pass reactions s = (s', u)"
    by (cases "closure_pass reactions s")
  then have g: "s \<subseteq> s'"
    using fold_closure_step_grows[of reactions s False s' u] by (simp add: closure_pass_def)
  show ?case
  proof (cases u)
    case True
    with 1 p have "s' \<subseteq> closure_loop reactions s'" by simp
    with g p True show ?thesis by (subst closure_loop.simps) auto
  next
    case False
    with g p show ?thesis by (subst closure_loop.simps) simp
  qed
qed

lemma closure_loop_closed: "closed_under rs (closure_loop rs s)"
proof (induction rs s rule: closure_loop.induct)
  case (1 reactions s)
  obtain s' u where p: "closure_pass reactions s = (s', u)"
    by (cases "closure_pass reactions s")
  show ?case
  proof (cases u)
    case True
    with 1 p have "closed_under reactions (closure_loop reactions s')" by simp
    with p True show ?thesis by (subst closure_loop.simps) simp
  next
    case False
    with p have "fold closure_step reactions (s, False) = (s', False)"
      by (simp add: closure_pass_def)
    from fold_closure_step_quiet[OF this] have "closed_under reactions s'"
      by (simp add: closed_under_def)
    with p False show ?thesis by (subst closure_loop.simps) simp
  qed
qed

lemma closure_loop_least: "s \<subseteq> t \<Longrightarrow> closed_under rs t \<Longrightarrow> closure_loop rs s \<subseteq> t"
proof (induction rs s rule: closure_loop.induct)
  case (1 reactions s)
  obtain s' u where p: "closure_pass reactions s = (s', u)"
    by (cases "closure_pass reactions s")
  then have "fold closure_step reactions (s, False) = (s', u)"
    by (simp add: closure_pass_def)
  from fold_closure_step_within[OF this "1.prems"] have w: "s' \<subseteq> t" .
  show ?case
  proof (cases u)
    case True
    with 1 p w have "closure_loop reactions s' \<subseteq> t" by simp
    with p True show ?thesis by (subst closure_loop.simps) simp
  next
    case False
    with p w show ?thesis by (subst closure_loop.simps) simp
  qed
qed

text \<open>
  C2. For every seed set and every list of reactions (a finite set in any visiting
  order), \<open>get_set_closure\<close> returns the smallest superset of the seed set that is closed
  under the reactions: it contains the seed set, it contains the products of every
  reaction whose reactives it contains, and it is included in every set with these two
  properties.
\<close>

theorem get_set_closure_least_closed_superset:
  "s \<subseteq> get_set_closure s reactions \<and>
   closed_under reactions (get_set_closure s reactions) \<and>
   (\<forall>t. s \<subseteq> t \<and> closed_under reactions t \<longrightarrow> get_set_closure s reactions \<subseteq> t)"
  unfolding get_set_closure_def
proof (intro conjI allI impI)
  show "s \<subseteq> closure_loop reactions s" by (rule closure_loop_superset)
  show "closed_under reactions (closure_loop reactions s)" by (rule closure_loop_closed)
  fix t assume "s \<subseteq> t \<and> closed_under reactions t"
  then have "s \<subseteq> t" and "closed_under reactions t" by simp_all
  then show "closure_loop reactions s \<subseteq> t" by (rule closure_loop_least)
qed

theorem get_set_closure_least_closed_superset_witness:
  "{''A'', ''B''} \<subseteq> {''A'', ''B'', ''C'', ''D''} \<and>
   closed_under [r2, r1] {''A'', ''B'', ''C'', ''D''} \<and>
   get_set_closure {''A'', ''B''} [r2, r1] \<subseteq> {''A'', ''B'', ''C'', ''D''} \<and>
   set (reactives r1) \<subseteq> get_set_closure {''A'', ''B''} [r2, r1] \<and>
   set (products r1) \<subseteq> get_set_closure {''A'', ''B''} [r2, r1]"
proof -
  let ?S = "{''A'', ''B''}" and ?T = "{''A'', ''B'', ''C'', ''D''}"
  let ?cl = "get_set_closure ?S [r2, r1]"
  note T = get_set_closure_least_closed_superset[of ?S "[r2, r1]"]
  have sup: "?S \<subseteq> ?cl" using T by (rule conjunct1)
  have clo: "closed_under [r2, r1] ?cl" using T by (rule conjunct2[THEN conjunct1])
  have least: "?S \<subseteq> ?T \<and> closed_under [r2, r1] ?T \<longrightarrow> ?cl \<subseteq> ?T"
    using T by (rule conjunct2[THEN conjunct2, THEN spec])
  have s: "?S \<subseteq> ?T" by simp
  have c: "closed_under [r2, r1] ?T"
    by (simp add: closed_under_def r1_def r2_def)
  have l: "?cl \<subseteq> ?T" using least s c by (rule mp[OF _ conjI])
  have rs: "set (reactives r1) = ?S" by (simp add: r1_def)
  have en: "set (reactives r1) \<subseteq> ?cl" unfolding rs by (rule sup)
  have "r1 \<in> set [r2, r1]" by simp
  with clo have "set (reactives r1) \<subseteq> ?cl \<longrightarrow> set (products r1) \<subseteq> ?cl"
    unfolding closed_under_def by (rule bspec)
  then have pr: "set (products r1) \<subseteq> ?cl" using en by (rule mp)
  from s c l en pr show ?thesis by (intro conjI)
qed

section \<open>The RAF solver stops at a fixed point of its round\<close>


lemma raf_round_fixed_of_filtered:
  fixes raf old :: "'a reaction list"
  assumes "set raf = set old" and "raf = raf_round food_cl old"
  shows "raf_round food_cl raf = raf"
proof -
  define Q where "Q = (\<lambda>r :: 'a reaction.
      (\<forall>x \<in> set (reactives r). x \<in> food_cl \<or> x \<in> (\<Union>r \<in> set old. set (products r))) \<and>
      (\<exists>x \<in> set (products r). x \<in> (\<Union>r \<in> set old. set (reactives r)) \<and> x \<notin> food_cl))"
  have 1: "raf_round food_cl old = filter Q old"
    by (simp add: raf_round_def Q_def)
  have 2: "raf_round food_cl raf = filter Q raf"
    by (simp add: raf_round_def Q_def assms(1))
  from assms(2) 1 have "\<forall>r \<in> set raf. Q r" by simp
  then have "filter Q raf = raf" by simp
  with 2 show ?thesis by simp
qed

lemma raf_loop_fixed:
  "(\<And>old. old_raf = Some old \<Longrightarrow> raf = raf_round food_cl old) \<Longrightarrow>
     raf_round food_cl (raf_loop food_cl raf old_raf) = raf_loop food_cl raf old_raf"
proof (induction food_cl raf old_raf rule: raf_loop.induct)
  case (1 food_cl raf old_raf)
  show ?case
  proof (cases "Some (set raf) \<noteq> map_option set old_raf")
    case True
    then have "raf_round food_cl (raf_loop food_cl (raf_round food_cl raf) (Some raf))
                 = raf_loop food_cl (raf_round food_cl raf) (Some raf)"
      by (rule "1.IH") simp
    with True show ?thesis by (subst (1 2) raf_loop.simps) (simp del: option.inject)
  next
    case False
    then obtain old where o: "old_raf = Some old" and s: "set raf = set old"
      by (cases old_raf) auto
    from "1.prems"[OF o] have "raf = raf_round food_cl old" .
    with s have "raf_round food_cl raf = raf" by (rule raf_round_fixed_of_filtered)
    with False show ?thesis by (subst (1 2) raf_loop.simps) (simp del: option.inject)
  qed
qed

lemma raf_round_fixed_members:
  assumes "raf_round food_cl raf = raf" and "r \<in> set raf"
  shows "(\<forall>x \<in> set (reactives r). x \<in> food_cl \<or> (\<exists>r' \<in> set raf. x \<in> set (products r'))) \<and>
         (\<exists>x \<in> set (products r). (\<exists>r' \<in> set raf. x \<in> set (reactives r')) \<and> x \<notin> food_cl)"
proof -
  from assms(2) have "r \<in> set (raf_round food_cl raf)" by (simp add: assms(1))
  then show ?thesis by (simp add: raf_round_def Let_def)
qed

lemma get_raf_fixed:
  assumes "get_raf g food_set = Inr raf"
  shows "\<exists>reductions. reductions_of g = Inr reductions \<and>
           raf_round (get_set_closure food_set reductions) raf = raf"
proof -
  from assms obtain reductions where r: "reductions_of g = Inr reductions"
    and e: "raf = raf_loop (get_set_closure food_set reductions) reductions None"
    by (auto simp: get_raf_def Let_def split: sum.splits)
  have "raf_round (get_set_closure food_set reductions) raf = raf"
    unfolding e by (rule raf_loop_fixed) simp
  with r show ?thesis by blast
qed

text \<open>
  C1. Whenever \<open>get_raf\<close> returns a set of reactions, every reactive of every returned
  reaction is in the closure of the food set under all reduce-type reactions of the
  graph, or is a product of a returned reaction.
\<close>

theorem get_raf_reactives_available:
  "get_raf g food_set = Inr raf \<Longrightarrow>
     \<exists>reductions. reductions_of g = Inr reductions \<and>
       (\<forall>r \<in> set raf. \<forall>x \<in> set (reactives r).
          x \<in> get_set_closure food_set reductions \<or> (\<exists>r' \<in> set raf. x \<in> set (products r')))"
proof -
  assume "get_raf g food_set = Inr raf"
  from get_raf_fixed[OF this] obtain reductions where r: "reductions_of g = Inr reductions"
    and f: "raf_round (get_set_closure food_set reductions) raf = raf" by blast
  from raf_round_fixed_members[OF f] r show ?thesis by blast
qed

theorem get_raf_reactives_available_witness:
  "get_raf g12 {''B''} = Inr [r1, r2] \<and> reductions_of g12 = Inr [r1, r2] \<and>
   (''A'' \<in> get_set_closure {''B''} [r1, r2] \<or>
    ''A'' \<in> set (products r1) \<or> ''A'' \<in> set (products r2))"
proof -
  have a: "get_raf g12 {''B''} = Inr [r1, r2]" by code_simp
  have b: "reductions_of g12 = Inr [r1, r2]" by code_simp
  have c: "''A'' \<in> set (reactives r1)" by (simp add: r1_def)
  from get_raf_reactives_available[OF a] b
  have "\<forall>r \<in> set [r1, r2]. \<forall>x \<in> set (reactives r).
          x \<in> get_set_closure {''B''} [r1, r2] \<or> (\<exists>r' \<in> set [r1, r2]. x \<in> set (products r'))"
    by simp
  then have "\<forall>x \<in> set (reactives r1).
          x \<in> get_set_closure {''B''} [r1, r2] \<or> (\<exists>r' \<in> set [r1, r2]. x \<in> set (products r'))"
    by simp
  with c have "''A'' \<in> get_set_closure {''B''} [r1, r2] \<or>
      (\<exists>r' \<in> set [r1, r2]. ''A'' \<in> set (products r'))"
    by (rule bspec[rotated])
  then have "''A'' \<in> get_set_closure {''B''} [r1, r2] \<or>
      ''A'' \<in> set (products r1) \<or> ''A'' \<in> set (products r2)"
    by simp
  with a b show ?thesis by (intro conjI)
qed

section \<open>Graph primitives\<close>

lemma map_of_nodes_add_node:
  "map_of (nodes (add_node g n a)) =
     (map_of (nodes g))(n \<mapsto> dict_update (case map_of (nodes g) n of None \<Rightarrow> [] | Some d \<Rightarrow> d) a)"
  by (simp add: add_node_def update_conv')

lemma edges_add_node: "edges (add_node g n a) = edges g"
  by (simp add: add_node_def)

lemma distinct_nodes_add_node:
  "distinct (map fst (nodes g)) \<Longrightarrow> distinct (map fst (nodes (add_node g n a)))"
  by (simp add: add_node_def distinct_update)

lemma ensure_node_present: "map_of (nodes g) n \<noteq> None \<Longrightarrow> ensure_node g n = g"
  by (auto simp: ensure_node_def)

lemma add_edge_present:
  assumes "map_of (nodes g) u \<noteq> None" and "map_of (nodes g) v \<noteq> None"
  shows "add_edge g u v a =
           g\<lparr>edges := AList.update (u, v)
               (dict_update (case map_of (edges g) (u, v) of None \<Rightarrow> [] | Some d \<Rightarrow> d) a)
               (edges g)\<rparr>"
  using assms by (simp add: add_edge_def ensure_node_present Let_def)

lemma dict_update_single: "dict_update d [(k, v)] = AList.update k v d"
  by (simp add: dict_update_def)

lemma add_reactive_unfold:
  assumes "map_of (nodes g) (Reaction rn) \<noteq> None"
  shows "add_reactive rn x g =
     \<lparr>nodes = AList.update (Expression x)
                (AList.update ''node_type'' (PyStr ''expression'')
                   (case map_of (nodes g) (Expression x) of None \<Rightarrow> [] | Some d \<Rightarrow> d))
                (nodes g),
      edges = AList.update (Expression x, Reaction rn)
                (AList.update ''substrate'' (PyBool (x = substrate rn))
                   (case map_of (edges g) (Expression x, Reaction rn) of None \<Rightarrow> [] | Some d \<Rightarrow> d))
                (edges g)\<rparr>"
proof -
  let ?g1 = "add_node g (Expression x) [(''node_type'', PyStr ''expression'')]"
  have 1: "map_of (nodes ?g1) (Expression x) \<noteq> None" "map_of (nodes ?g1) (Reaction rn) \<noteq> None"
    using assms by (simp_all add: map_of_nodes_add_node)
  show ?thesis
    unfolding add_reactive_def Let_def add_edge_present[OF 1]
    by (simp add: add_node_def dict_update_single)
qed

lemma add_product_unfold:
  assumes "map_of (nodes g) (Reaction rn) \<noteq> None"
  shows "add_product rn p g =
     \<lparr>nodes = AList.update (Expression p)
                (AList.update ''node_type'' (PyStr ''expression'')
                   (case map_of (nodes g) (Expression p) of None \<Rightarrow> [] | Some d \<Rightarrow> d))
                (nodes g),
      edges = AList.update (Reaction rn, Expression p)
                (AList.update ''substrate'' (PyBool False)
                   (case map_of (edges g) (Reaction rn, Expression p) of None \<Rightarrow> [] | Some d \<Rightarrow> d))
                (edges g)\<rparr>"
proof -
  let ?g1 = "add_node g (Expression p) [(''node_type'', PyStr ''expression'')]"
  have 1: "map_of (nodes ?g1) (Reaction rn) \<noteq> None" "map_of (nodes ?g1) (Expression p) \<noteq> None"
    using assms by (simp_all add: map_of_nodes_add_node)
  show ?thesis
    unfolding add_product_def Let_def add_edge_present[OF 1]
    by (simp add: add_node_def dict_update_single)
qed

section \<open>\<open>add_reaction\<close> keeps the graph well formed\<close>

lemma wf_graph_reset: "wf_graph reset"
  by (simp add: wf_graph_def reset_def)

lemma wf_graph_update:
  assumes wf: "wf_graph g" and n: "node_ok n dn" and o: "opposite u v"
    and u: "u = n \<or> map_of (nodes g) u \<noteq> None"
    and v: "v = n \<or> map_of (nodes g) v \<noteq> None"
  shows "wf_graph \<lparr>nodes = AList.update n dn (nodes g),
                    edges = AList.update (u, v) de (edges g)\<rparr>"
proof -
  let ?g = "\<lparr>nodes = AList.update n dn (nodes g), edges = AList.update (u, v) de (edges g)\<rparr>"
  have mn: "map_of (nodes ?g) = (map_of (nodes g))(n \<mapsto> dn)" by (simp add: update_conv')
  have me: "map_of (edges ?g) = (map_of (edges g))((u, v) \<mapsto> de)" by (simp add: update_conv')
  from wf have d1: "distinct (map fst (nodes ?g))" and d2: "distinct (map fst (edges ?g))"
    by (simp_all add: wf_graph_def distinct_update)
  have nodes_ok: "node_ok m d" if "map_of (nodes ?g) m = Some d" for m d
  proof (cases "m = n")
    case True
    with that n show ?thesis unfolding mn by simp
  next
    case False
    with that have "map_of (nodes g) m = Some d" unfolding mn by simp
    with wf show ?thesis unfolding wf_graph_def by blast
  qed
  have keep: "map_of (nodes ?g) m \<noteq> None" if "m = n \<or> map_of (nodes g) m \<noteq> None" for m
    using that unfolding mn by auto
  have edges_ok: "opposite a b \<and> map_of (nodes ?g) a \<noteq> None \<and> map_of (nodes ?g) b \<noteq> None"
    if "map_of (edges ?g) (a, b) = Some d" for a b d
  proof (cases "(a, b) = (u, v)")
    case True
    with o keep[OF u] keep[OF v] show ?thesis by simp
  next
    case False
    with that have "map_of (edges g) (a, b) = Some d" unfolding me by (auto split: if_splits)
    with wf have "opposite a b" "map_of (nodes g) a \<noteq> None" "map_of (nodes g) b \<noteq> None"
      unfolding wf_graph_def by blast+
    with keep[of a] keep[of b] show ?thesis by blast
  qed
  from d1 d2 nodes_ok edges_ok show ?thesis unfolding wf_graph_def by blast
qed

lemma wf_graph_update_node:
  assumes wf: "wf_graph g" and n: "node_ok n dn"
  shows "wf_graph (g\<lparr>nodes := AList.update n dn (nodes g)\<rparr>)"
proof -
  let ?g = "g\<lparr>nodes := AList.update n dn (nodes g)\<rparr>"
  have mn: "map_of (nodes ?g) = (map_of (nodes g))(n \<mapsto> dn)" by (simp add: update_conv')
  have me: "edges ?g = edges g" by simp
  from wf have d1: "distinct (map fst (nodes ?g))" and d2: "distinct (map fst (edges ?g))"
    by (simp_all add: wf_graph_def distinct_update)
  have nodes_ok: "node_ok m d" if "map_of (nodes ?g) m = Some d" for m d
  proof (cases "m = n")
    case True
    with that n show ?thesis unfolding mn by simp
  next
    case False
    with that have "map_of (nodes g) m = Some d" unfolding mn by simp
    with wf show ?thesis unfolding wf_graph_def by blast
  qed
  have edges_ok: "opposite a b \<and> map_of (nodes ?g) a \<noteq> None \<and> map_of (nodes ?g) b \<noteq> None"
    if "map_of (edges ?g) (a, b) = Some d" for a b d
  proof -
    from that wf have "opposite a b" "map_of (nodes g) a \<noteq> None" "map_of (nodes g) b \<noteq> None"
      unfolding wf_graph_def me by blast+
    then show ?thesis unfolding mn by auto
  qed
  from d1 d2 nodes_ok edges_ok show ?thesis unfolding wf_graph_def by blast
qed

lemma node_ok_expression_update:
  "node_ok (Expression x) (AList.update ''node_type'' (PyStr ''expression'') d)"
  by (simp add: node_ok_def update_conv')

lemma wf_add_reactive:
  assumes "wf_graph g" and "map_of (nodes g) (Reaction rn) \<noteq> None"
  shows "wf_graph (add_reactive rn x g) \<and> map_of (nodes (add_reactive rn x g)) (Reaction rn) \<noteq> None"
proof
  show "wf_graph (add_reactive rn x g)"
    unfolding add_reactive_unfold[OF assms(2)]
    by (rule wf_graph_update[OF assms(1) node_ok_expression_update]) (simp_all add: assms(2))
  show "map_of (nodes (add_reactive rn x g)) (Reaction rn) \<noteq> None"
    unfolding add_reactive_unfold[OF assms(2)] using assms(2) by (simp add: update_conv')
qed

lemma wf_add_product:
  assumes "wf_graph g" and "map_of (nodes g) (Reaction rn) \<noteq> None"
  shows "wf_graph (add_product rn p g) \<and> map_of (nodes (add_product rn p g)) (Reaction rn) \<noteq> None"
proof
  show "wf_graph (add_product rn p g)"
    unfolding add_product_unfold[OF assms(2)]
    by (rule wf_graph_update[OF assms(1) node_ok_expression_update]) (simp_all add: assms(2))
  show "map_of (nodes (add_product rn p g)) (Reaction rn) \<noteq> None"
    unfolding add_product_unfold[OF assms(2)] using assms(2) by (simp add: update_conv')
qed

lemma wf_fold_add_reactive:
  "wf_graph g \<Longrightarrow> map_of (nodes g) (Reaction rn) \<noteq> None \<Longrightarrow>
     wf_graph (fold (add_reactive rn) xs g) \<and>
     map_of (nodes (fold (add_reactive rn) xs g)) (Reaction rn) \<noteq> None"
proof (induction xs arbitrary: g)
  case Nil
  then show ?case by simp
next
  case (Cons x xs)
  from wf_add_reactive[OF Cons.prems, of x] Cons.IH[of "add_reactive rn x g"]
  show ?case by simp
qed

lemma wf_fold_add_product:
  "wf_graph g \<Longrightarrow> map_of (nodes g) (Reaction rn) \<noteq> None \<Longrightarrow>
     wf_graph (fold (add_product rn) xs g) \<and>
     map_of (nodes (fold (add_product rn) xs g)) (Reaction rn) \<noteq> None"
proof (induction xs arbitrary: g)
  case Nil
  then show ?case by simp
next
  case (Cons x xs)
  from wf_add_product[OF Cons.prems, of x] Cons.IH[of "add_product rn x g"]
  show ?case by simp
qed

lemma get_occurrences_wf:
  assumes "wf_graph g"
  shows "\<exists>k. get_occurrences g (Reaction rn) = Inr (PyInt k)"
proof (cases "map_of (nodes g) (Reaction rn)")
  case None
  then show ?thesis
    by (simp add: get_occurrences_def get_node_attribute_def nodes_data_getitem_def dict_get_def)
next
  case (Some d)
  with assms have "node_ok (Reaction rn) d" by (simp add: wf_graph_def)
  then obtain k where "map_of d ''occurrences'' = Some (PyInt k)" by (auto simp: node_ok_def)
  with Some show ?thesis
    by (simp add: get_occurrences_def get_node_attribute_def nodes_data_getitem_def dict_get_def)
qed

lemma wf_add_node_reaction:
  assumes "wf_graph g"
  shows "wf_graph (add_node g (Reaction rn)
            [(''reaction_type'', PyStr (type rn)), (''occurrences'', PyInt k),
             (''node_type'', PyStr ''reaction'')])"
  unfolding add_node_def
  by (rule wf_graph_update_node[OF assms]) (simp add: node_ok_def dict_update_def update_conv')

lemma add_reaction_wf:
  assumes "wf_graph g"
  shows "\<exists>g'. add_reaction g rn = Inr g' \<and> wf_graph g'"
proof -
  from get_occurrences_wf[OF assms] obtain k
    where k: "get_occurrences g (Reaction rn) = Inr (PyInt k)" by blast
  let ?g1 = "add_node g (Reaction rn)
            [(''reaction_type'', PyStr (type rn)), (''occurrences'', PyInt (k + 1)),
             (''node_type'', PyStr ''reaction'')]"
  have w1: "wf_graph ?g1" by (rule wf_add_node_reaction[OF assms])
  have p1: "map_of (nodes ?g1) (Reaction rn) \<noteq> None" by (simp add: map_of_nodes_add_node)
  let ?g2 = "fold (add_reactive rn) (reactives rn) ?g1"
  from wf_fold_add_reactive[OF w1 p1]
  have w2: "wf_graph ?g2" and p2: "map_of (nodes ?g2) (Reaction rn) \<noteq> None" by simp_all
  from wf_fold_add_product[OF w2 p2]
  have "wf_graph (fold (add_product rn) (products rn) ?g2)" by simp
  with k show ?thesis by (simp add: add_reaction_def Let_def)
qed

lemma add_reactions_wf:
  "wf_graph g \<Longrightarrow> \<exists>g'. add_reactions g rs = Inr g' \<and> wf_graph g'"
proof (induction rs arbitrary: g)
  case Nil
  then show ?case by simp
next
  case (Cons r rs)
  from add_reaction_wf[OF Cons.prems, of r] obtain g1
    where "add_reaction g r = Inr g1" and "wf_graph g1" by blast
  with Cons.IH[of g1] show ?case by simp
qed

lemma wf_graph_bipartite:
  assumes "wf_graph g"
  shows "bipartite g"
  unfolding bipartite_def
proof
  fix uv assume "uv \<in> set (map fst (edges g))"
  then obtain u v d where uv: "uv = (u, v)" and "((u, v), d) \<in> set (edges g)" by auto
  with assms have m: "map_of (edges g) (u, v) = Some d" by (simp add: wf_graph_def)
  with assms have o: "opposite u v" and "map_of (nodes g) u \<noteq> None" "map_of (nodes g) v \<noteq> None"
    unfolding wf_graph_def by blast+
  then obtain du dv where du: "map_of (nodes g) u = Some du" and dv: "map_of (nodes g) v = Some dv"
    by auto
  with assms have "node_ok u du" "node_ok v dv" by (simp_all add: wf_graph_def)
  with o du dv show "{node_type_of g (fst uv), node_type_of g (snd uv)} =
        {Some (PyStr ''expression''), Some (PyStr ''reaction'')}"
    unfolding uv by (cases "(u, v)" rule: opposite.cases) (auto simp: node_ok_def node_type_of_def)
qed

text \<open>
  C3. Every graph built from the empty graph by a sequence of \<open>add_reaction\<close> calls is
  bipartite (and no such call fails): each edge has one endpoint whose \<open>node_type\<close> is
  \<open>expression\<close> and one whose \<open>node_type\<close> is \<open>reaction\<close>.
\<close>

theorem add_reactions_bipartite:
  "\<exists>g. add_reactions reset rs = Inr g \<and> bipartite g"
  using add_reactions_wf[OF wf_graph_reset, of rs] wf_graph_bipartite by blast

theorem add_reactions_bipartite_witness:
  "add_reactions reset [r1, r2] = Inr g12 \<and>
   (Expression ''A'', Reaction r1) \<in> set (map fst (edges g12)) \<and>
   {node_type_of g12 (Expression ''A''), node_type_of g12 (Reaction r1)} =
     {Some (PyStr ''expression''), Some (PyStr ''reaction'')}"
proof -
  have a: "add_reactions reset [r1, r2] = Inr g12" by code_simp
  from add_reactions_bipartite[of "[r1, r2]"] a have b: "bipartite g12" by simp
  have c: "(Expression ''A'', Reaction r1) \<in> set (map fst (edges g12))" by code_simp
  from b c have "{node_type_of g12 (fst (Expression ''A'', Reaction r1)),
                  node_type_of g12 (snd (Expression ''A'', Reaction r1))} =
     {Some (PyStr ''expression''), Some (PyStr ''reaction'')}"
    unfolding bipartite_def by (rule bspec)
  then have "{node_type_of g12 (Expression ''A''), node_type_of g12 (Reaction r1)} =
     {Some (PyStr ''expression''), Some (PyStr ''reaction'')}"
    by simp
  with a c show ?thesis by (intro conjI)
qed

section \<open>The RAF solver on well-formed graphs\<close>

lemma wf_graph_nodes_ok:
  assumes "wf_graph g" and "(n, d) \<in> set (nodes g)"
  shows "node_ok n d"
proof -
  from assms have "map_of (nodes g) n = Some d" by (simp add: wf_graph_def)
  with assms(1) show ?thesis unfolding wf_graph_def by blast
qed

lemma is_reducing_reaction_ok:
  assumes "node_ok n d"
  shows "\<exists>b. is_reducing_reaction n d = Inr b \<and> (b \<longrightarrow> (\<exists>r. n = Reaction r))"
proof (cases n)
  case (Expression e)
  with assms have "is_reducing_reaction n d = Inr False"
    by (simp add: node_ok_def is_reducing_reaction_def dict_get_def)
  then show ?thesis by blast
next
  case (Reaction r)
  with assms have "is_reducing_reaction n d = Inr (type r = ''reduce'')"
    by (simp add: node_ok_def is_reducing_reaction_def dict_get_def)
  with Reaction show ?thesis by blast
qed

lemma get_nodes_reducing_ok:
  "(\<And>n d. (n, d) \<in> set nds \<Longrightarrow> node_ok n d) \<Longrightarrow>
     \<exists>rs. get_nodes is_reducing_reaction nds = Inr (map Reaction rs)"
proof (induction nds)
  case Nil
  then show ?case by simp
next
  case (Cons nd nds)
  obtain n d where nd: "nd = (n, d)" by (cases nd)
  from Cons.prems nd have "node_ok n d" by simp
  from is_reducing_reaction_ok[OF this] obtain b
    where b: "is_reducing_reaction n d = Inr b" and br: "b \<longrightarrow> (\<exists>r. n = Reaction r)" by blast
  from Cons.IH Cons.prems obtain rs
    where rs: "get_nodes is_reducing_reaction nds = Inr (map Reaction rs)" by auto
  show ?case
  proof (cases b)
    case True
    with br obtain r where "n = Reaction r" by blast
    with nd b rs True have "get_nodes is_reducing_reaction (nd # nds) = Inr (map Reaction (r # rs))"
      by simp
    then show ?thesis by blast
  next
    case False
    with nd b rs show ?thesis by auto
  qed
qed

lemma as_reactions_map: "as_reactions (map Reaction rs) = Inr rs"
  by (induction rs) simp_all

lemma reductions_of_wf:
  assumes "wf_graph g"
  shows "\<exists>rs. reductions_of g = Inr rs"
proof -
  from get_nodes_reducing_ok[of "nodes g"] wf_graph_nodes_ok[OF assms]
  obtain rs where "get_nodes is_reducing_reaction (nodes g) = Inr (map Reaction rs)" by blast
  then show ?thesis
    by (simp add: reductions_of_def get_all_reducing_reactions_def as_reactions_map)
qed

lemma get_raf_wf:
  assumes "wf_graph g"
  shows "\<exists>raf. get_raf g food_set = Inr raf"
  using reductions_of_wf[OF assms] by (auto simp: get_raf_def Let_def)

text \<open>
  C8. A reaction without products is never in the set that \<open>get_raf\<close> returns, and on
  every graph built by \<open>add_reaction\<close> calls (whatever the numbers of reactives and
  products of the reactions) \<open>get_raf\<close> returns a set and raises nothing.
\<close>

theorem get_raf_no_empty_products:
  "(get_raf g food_set = Inr raf \<longrightarrow> (\<forall>r \<in> set raf. products r \<noteq> [])) \<and>
   (add_reactions reset rs = Inr g' \<longrightarrow> (\<exists>raf'. get_raf g' food_set' = Inr raf'))"
proof (intro conjI impI ballI)
  fix r assume g: "get_raf g food_set = Inr raf" and r: "r \<in> set raf"
  from get_raf_fixed[OF g] obtain reductions
    where "raf_round (get_set_closure food_set reductions) raf = raf" by blast
  from raf_round_fixed_members[OF this r] show "products r \<noteq> []" by auto
next
  assume a: "add_reactions reset rs = Inr g'"
  from add_reactions_wf[OF wf_graph_reset, of rs] a have "wf_graph g'" by simp
  then show "\<exists>raf'. get_raf g' food_set' = Inr raf'" by (rule get_raf_wf)
qed

theorem get_raf_no_empty_products_witness:
  "add_reactions reset [r1, r2, r3] = Inr g123 \<and> products r3 = [] \<and>
   get_raf g123 {''B''} = Inr [r1, r2] \<and> products r1 \<noteq> [] \<and> products r2 \<noteq> []"
proof -
  have a: "add_reactions reset [r1, r2, r3] = Inr g123" by code_simp
  have b: "get_raf g123 {''B''} = Inr [r1, r2]" by code_simp
  have c: "products r3 = []" by (simp add: r3_def)
  note T = get_raf_no_empty_products[of g123 "{''B''}" "[r1, r2]" "[r1, r2, r3]" g123 "{''B''}"]
  from T b have "\<forall>r \<in> set [r1, r2]. products r \<noteq> []" by blast
  then have "products r1 \<noteq> []" "products r2 \<noteq> []" by simp_all
  with a b c show ?thesis by (intro conjI)
qed

section \<open>\<open>get_node_attribute\<close>\<close>

lemma get_node_attribute_node_absent:
  "map_of (nodes g) node = None \<Longrightarrow>
     get_node_attribute g node attribute default_value =
       (if default_value = PyNone then Inl KeyError else Inr default_value)"
  by (simp add: get_node_attribute_def nodes_data_getitem_def dict_get_def)

lemma get_node_attribute_present:
  "map_of (nodes g) node = Some d \<Longrightarrow> map_of d attribute = Some v \<Longrightarrow>
     get_node_attribute g node attribute default_value = Inr v"
  by (simp add: get_node_attribute_def nodes_data_getitem_def dict_get_def)

lemma get_node_attribute_attribute_absent:
  "map_of (nodes g) node = Some d \<Longrightarrow> map_of d attribute = None \<Longrightarrow>
     get_node_attribute g node attribute default_value = Inr PyNone"
  by (simp add: get_node_attribute_def nodes_data_getitem_def dict_get_def)

text \<open>
  C6. The claim holds for a node that is not in the graph and for an attribute that is
  stored. It fails for a node that is in the graph without the attribute: the node data
  view raises nothing there and yields \<open>None\<close>, so no error is raised when no default is
  given, and a given default is not returned. In the graph of the scenario the
  Expression \<open>A\<close> is a node without \<open>occurrences\<close>: with the default \<open>0\<close> the result is
  \<open>None\<close>, not \<open>0\<close>, and without a default the result is \<open>None\<close>, not an error.
\<close>

theorem get_node_attribute_ignores_default:
  "map_of (nodes g12) (Expression ''A'') = Some [(''node_type'', PyStr ''expression'')] \<and>
   get_node_attribute g12 (Expression ''A'') ''occurrences'' (PyInt 0) = Inr PyNone \<and>
   get_node_attribute g12 (Expression ''A'') ''occurrences'' PyNone = Inr PyNone"
  by code_simp

section \<open>\<open>remove_selfloop\<close>\<close>

lemma remove_nodes_from_filter:
  "remove_nodes_from g ns =
     \<lparr>nodes = filter (\<lambda>nd. fst nd \<notin> set ns) (nodes g),
      edges = filter (\<lambda>e. fst (fst e) \<notin> set ns \<and> snd (fst e) \<notin> set ns) (edges g)\<rparr>"
  unfolding remove_nodes_from_def
proof (induction ns arbitrary: g)
  case Nil
  show ?case by simp
next
  case (Cons n ns)
  have "fold remove_node_silent (n # ns) g = fold remove_node_silent ns (remove_node_silent n g)"
    by simp
  also have "\<dots> =
     \<lparr>nodes = filter (\<lambda>nd. fst nd \<notin> set ns) (nodes (remove_node_silent n g)),
      edges = filter (\<lambda>e. fst (fst e) \<notin> set ns \<and> snd (fst e) \<notin> set ns)
                (edges (remove_node_silent n g))\<rparr>"
    by (rule Cons.IH)
  also have "\<dots> =
     \<lparr>nodes = filter (\<lambda>nd. fst nd \<notin> set (n # ns)) (nodes g),
      edges = filter (\<lambda>e. fst (fst e) \<notin> set (n # ns) \<and> snd (fst e) \<notin> set (n # ns)) (edges g)\<rparr>"
    by (auto simp: remove_node_silent_def AList.delete_eq intro!: filter_cong)
  finally show ?case .
qed

lemma is_selfloop_ok:
  assumes "node_ok n d"
  shows "is_selfloop n d = Inr (selfloop n)"
proof (cases n)
  case (Expression e)
  with assms show ?thesis by (simp add: node_ok_def is_selfloop_def dict_get_def)
next
  case (Reaction r)
  with assms show ?thesis by (simp add: node_ok_def is_selfloop_def dict_get_def)
qed

lemma get_nodes_selfloop_ok:
  "(\<And>n d. (n, d) \<in> set nds \<Longrightarrow> node_ok n d) \<Longrightarrow>
     get_nodes is_selfloop nds = Inr (filter selfloop (map fst nds))"
proof (induction nds)
  case Nil
  then show ?case by simp
next
  case (Cons nd nds)
  obtain n d where nd: "nd = (n, d)" by (cases nd)
  from Cons.prems nd have "is_selfloop n d = Inr (selfloop n)" by (simp add: is_selfloop_ok)
  moreover from Cons.IH Cons.prems
  have "get_nodes is_selfloop nds = Inr (filter selfloop (map fst nds))" by simp
  ultimately show ?case using nd by simp
qed

lemma wf_graph_edge_endpoints:
  assumes "wf_graph g" and "e \<in> set (edges g)"
  shows "fst (fst e) \<in> fst ` set (nodes g) \<and> snd (fst e) \<in> fst ` set (nodes g)"
proof -
  obtain u v d where e: "e = ((u, v), d)" by (cases e) auto
  with assms have "map_of (edges g) (u, v) = Some d" by (simp add: wf_graph_def)
  with assms(1) have "map_of (nodes g) u \<noteq> None" "map_of (nodes g) v \<noteq> None"
    unfolding wf_graph_def by blast+
  then show ?thesis unfolding e by (auto dest: map_of_SomeD intro: rev_image_eqI)
qed

text \<open>
  C7, as the code has it. On a well-formed graph \<open>remove_selfloop\<close> raises nothing and
  deletes exactly the Reaction nodes whose list of reactives equals their list of
  products, element by element in order, together with the edges at these nodes; all
  other nodes and edges stay as they are, with their attributes and in their order.
\<close>

theorem remove_selfloop_exact:
  "wf_graph g \<Longrightarrow>
     remove_selfloop g =
       Inr \<lparr>nodes = filter (\<lambda>nd. \<not> selfloop (fst nd)) (nodes g),
            edges = filter (\<lambda>e. \<not> selfloop (fst (fst e)) \<and> \<not> selfloop (snd (fst e))) (edges g)\<rparr>"
proof -
  assume wf: "wf_graph g"
  let ?ns = "filter selfloop (map fst (nodes g))"
  have ns: "get_nodes is_selfloop (nodes g) = Inr ?ns"
    by (rule get_nodes_selfloop_ok) (rule wf_graph_nodes_ok[OF wf])
  have 1: "filter (\<lambda>nd. fst nd \<notin> set ?ns) (nodes g) = filter (\<lambda>nd. \<not> selfloop (fst nd)) (nodes g)"
    by (rule filter_cong) auto
  have 2: "filter (\<lambda>e. fst (fst e) \<notin> set ?ns \<and> snd (fst e) \<notin> set ?ns) (edges g) =
           filter (\<lambda>e. \<not> selfloop (fst (fst e)) \<and> \<not> selfloop (snd (fst e))) (edges g)"
  proof (rule filter_cong)
    fix e assume "e \<in> set (edges g)"
    from wf_graph_edge_endpoints[OF wf this]
    show "(fst (fst e) \<notin> set ?ns \<and> snd (fst e) \<notin> set ?ns) =
          (\<not> selfloop (fst (fst e)) \<and> \<not> selfloop (snd (fst e)))"
      by auto
  qed simp
  have "remove_selfloop g = Inr (remove_nodes_from g ?ns)"
    by (simp add: remove_selfloop_def ns)
  also have "remove_nodes_from g ?ns =
       \<lparr>nodes = filter (\<lambda>nd. fst nd \<notin> set ?ns) (nodes g),
        edges = filter (\<lambda>e. fst (fst e) \<notin> set ?ns \<and> snd (fst e) \<notin> set ?ns) (edges g)\<rparr>"
    by (rule remove_nodes_from_filter)
  also have "\<dots> =
       \<lparr>nodes = filter (\<lambda>nd. \<not> selfloop (fst nd)) (nodes g),
        edges = filter (\<lambda>e. \<not> selfloop (fst (fst e)) \<and> \<not> selfloop (snd (fst e))) (edges g)\<rparr>"
    by (simp only: 1 2)
  finally show ?thesis .
qed

theorem remove_selfloop_exact_witness:
  "wf_graph g15 \<and> selfloop (Reaction r5) \<and> \<not> selfloop (Reaction r1) \<and>
   remove_selfloop g15 = Inr g1"
proof -
  have a: "add_reactions reset [r1, r5] = Inr g15" by code_simp
  from add_reactions_wf[OF wf_graph_reset, of "[r1, r5]"] a have w: "wf_graph g15" by simp
  have s: "selfloop (Reaction r5)" "\<not> selfloop (Reaction r1)" by (simp_all add: r1_def r5_def)
  have e: "\<lparr>nodes = filter (\<lambda>nd. \<not> selfloop (fst nd)) (nodes g15),
            edges = filter (\<lambda>e. \<not> selfloop (fst (fst e)) \<and> \<not> selfloop (snd (fst e))) (edges g15)\<rparr>
           = g1"
    by code_simp
  from remove_selfloop_exact[OF w] e have "remove_selfloop g15 = Inr g1" by simp
  with w s show ?thesis by (intro conjI)
qed

text \<open>
  The claim C7 as stated fails: the products of \<open>r4\<close> are a permutation of its reactives,
  so the two multisets are equal, and \<open>remove_selfloop\<close> keeps the node of \<open>r4\<close> and
  returns the graph unchanged.
\<close>

theorem remove_selfloop_keeps_permutation:
  "add_reactions reset [r4] = Inr g4 \<and> mset (reactives r4) = mset (products r4) \<and>
   Reaction r4 \<in> set (map fst (nodes g4)) \<and> remove_selfloop g4 = Inr g4"
proof -
  have a: "add_reactions reset [r4] = Inr g4" by code_simp
  have b: "mset (reactives r4) = mset (products r4)" by (simp add: r4_def)
  have c: "Reaction r4 \<in> set (map fst (nodes g4))" by code_simp
  have d: "remove_selfloop g4 = Inr g4" by code_simp
  from a b c d show ?thesis by (intro conjI)
qed

section \<open>\<open>PoolFeeder.on_step_computed\<close>\<close>

text \<open>
  C10. For a period of at least one, \<open>on_step_computed\<close> returns the pool as it is when
  \<open>ticks\<close> is zero or not a multiple of the period, and in no other case than
  \<open>ticks > 0\<close> with \<open>ticks\<close> a multiple of the period does it do anything else; in that
  case it does, for each food molecule in turn, the removal of the molecule's atoms and
  the append of the molecule (an exception of a removal ends the call).
\<close>

theorem on_step_computed_frame:
  "1 \<le> period \<Longrightarrow>
     (ticks = 0 \<or> ticks mod period \<noteq> 0 \<longrightarrow>
        on_step_computed atoms pool_remove pool_append food period pool ticks = Inr pool) \<and>
     (on_step_computed atoms pool_remove pool_append food period pool ticks \<noteq> Inr pool \<longrightarrow>
        ticks > 0 \<and> ticks mod period = 0) \<and>
     (ticks > 0 \<and> ticks mod period = 0 \<longrightarrow>
        on_step_computed atoms pool_remove pool_append food period pool ticks =
          feed atoms pool_remove pool_append food pool)"
  by (auto simp: on_step_computed_def)

theorem on_step_computed_frame_witness:
  "(1::int) \<le> 3 \<and> (5::int) mod 3 \<noteq> 0 \<and> (6::int) mod 3 = 0 \<and>
   on_step_computed chars list_remove list_append [''AB''] 3 [''A'', ''B'', ''C''] 5
     = Inr [''A'', ''B'', ''C''] \<and>
   on_step_computed chars list_remove list_append [''AB''] 3 [''A'', ''B'', ''C''] 0
     = Inr [''A'', ''B'', ''C''] \<and>
   on_step_computed chars list_remove list_append [''AB''] 3 [''A'', ''B'', ''C''] 6
     = feed chars list_remove list_append [''AB''] [''A'', ''B'', ''C''] \<and>
   feed chars list_remove list_append [''AB''] [''A'', ''B'', ''C''] = Inr [''C'', ''AB'']"
proof -
  have p: "(1::int) \<le> 3" by simp
  note T = on_step_computed_frame[OF p, of _ chars list_remove list_append "[''AB'']" "[''A'', ''B'', ''C'']"]
  have m5: "(5::int) mod 3 \<noteq> 0" and m6: "(6::int) mod 3 = 0" by simp_all
  from T[of 5] m5
  have a: "on_step_computed chars list_remove list_append [''AB''] 3 [''A'', ''B'', ''C''] 5
     = Inr [''A'', ''B'', ''C'']" by blast
  from T[of 0]
  have b: "on_step_computed chars list_remove list_append [''AB''] 3 [''A'', ''B'', ''C''] 0
     = Inr [''A'', ''B'', ''C'']" by blast
  from T[of 6] m6
  have c: "on_step_computed chars list_remove list_append [''AB''] 3 [''A'', ''B'', ''C''] 6
     = feed chars list_remove list_append [''AB''] [''A'', ''B'', ''C'']" by simp
  have d: "feed chars list_remove list_append [''AB''] [''A'', ''B'', ''C''] = Inr [''C'', ''AB'']"
    by code_simp
  from p m5 m6 a b c d show ?thesis by (intro conjI)
qed

section \<open>Adding the same reaction again\<close>

lemma add_reactions_append:
  "add_reactions g (xs @ ys) =
     (case add_reactions g xs of Inl e \<Rightarrow> Inl e | Inr g' \<Rightarrow> add_reactions g' ys)"
  by (induction xs arbitrary: g) (auto split: sum.splits)

lemma fold_fixed: "(\<And>x. x \<in> set xs \<Longrightarrow> f x g = g) \<Longrightarrow> fold f xs g = g"
  by (induction xs) simp_all

lemma add_reactive_fixed:
  assumes r: "map_of (nodes g) (Reaction rn) \<noteq> None"
    and n: "map_of (nodes g) (Expression x) = Some d" "map_of d ''node_type'' = Some (PyStr ''expression'')"
    and e: "map_of (edges g) (Expression x, Reaction rn) = Some de"
           "map_of de ''substrate'' = Some (PyBool (x = substrate rn))"
  shows "add_reactive rn x g = g"
proof -
  have 1: "AList.update ''node_type'' (PyStr ''expression'') d = d"
    by (rule update_triv[OF n(2)])
  have 2: "AList.update (Expression x) d (nodes g) = nodes g"
    by (rule update_triv[OF n(1)])
  have 3: "AList.update ''substrate'' (PyBool (x = substrate rn)) de = de"
    by (rule update_triv[OF e(2)])
  have 4: "AList.update (Expression x, Reaction rn) de (edges g) = edges g"
    by (rule update_triv[OF e(1)])
  show ?thesis
    unfolding add_reactive_unfold[OF r] by (simp add: n(1) e(1) 1 2 3 4)
qed

lemma add_product_fixed:
  assumes r: "map_of (nodes g) (Reaction rn) \<noteq> None"
    and n: "map_of (nodes g) (Expression p) = Some d" "map_of d ''node_type'' = Some (PyStr ''expression'')"
    and e: "map_of (edges g) (Reaction rn, Expression p) = Some de"
           "map_of de ''substrate'' = Some (PyBool False)"
  shows "add_product rn p g = g"
proof -
  have 1: "AList.update ''node_type'' (PyStr ''expression'') d = d"
    by (rule update_triv[OF n(2)])
  have 2: "AList.update (Expression p) d (nodes g) = nodes g"
    by (rule update_triv[OF n(1)])
  have 3: "AList.update ''substrate'' (PyBool False) de = de"
    by (rule update_triv[OF e(2)])
  have 4: "AList.update (Reaction rn, Expression p) de (edges g) = edges g"
    by (rule update_triv[OF e(1)])
  show ?thesis
    unfolding add_product_unfold[OF r] by (simp add: n(1) e(1) 1 2 3 4)
qed

lemma reactive_done_fixed:
  "map_of (nodes g) (Reaction rn) \<noteq> None \<Longrightarrow> reactive_done rn g x \<Longrightarrow> add_reactive rn x g = g"
  unfolding reactive_done_def by (blast intro: add_reactive_fixed)

lemma product_done_fixed:
  "map_of (nodes g) (Reaction rn) \<noteq> None \<Longrightarrow> product_done rn g p \<Longrightarrow> add_product rn p g = g"
  unfolding product_done_def by (blast intro: add_product_fixed)

lemma add_reactive_maps:
  assumes "map_of (nodes g) (Reaction rn) \<noteq> None"
  shows "map_of (nodes (add_reactive rn x g)) =
           (map_of (nodes g))(Expression x \<mapsto> AList.update ''node_type'' (PyStr ''expression'')
              (case map_of (nodes g) (Expression x) of None \<Rightarrow> [] | Some d \<Rightarrow> d))"
    and "map_of (edges (add_reactive rn x g)) =
           (map_of (edges g))((Expression x, Reaction rn) \<mapsto>
              AList.update ''substrate'' (PyBool (x = substrate rn))
                (case map_of (edges g) (Expression x, Reaction rn) of None \<Rightarrow> [] | Some d \<Rightarrow> d))"
  unfolding add_reactive_unfold[OF assms] by (simp_all add: update_conv')

lemma add_product_maps:
  assumes "map_of (nodes g) (Reaction rn) \<noteq> None"
  shows "map_of (nodes (add_product rn p g)) =
           (map_of (nodes g))(Expression p \<mapsto> AList.update ''node_type'' (PyStr ''expression'')
              (case map_of (nodes g) (Expression p) of None \<Rightarrow> [] | Some d \<Rightarrow> d))"
    and "map_of (edges (add_product rn p g)) =
           (map_of (edges g))((Reaction rn, Expression p) \<mapsto>
              AList.update ''substrate'' (PyBool False)
                (case map_of (edges g) (Reaction rn, Expression p) of None \<Rightarrow> [] | Some d \<Rightarrow> d))"
  unfolding add_product_unfold[OF assms] by (simp_all add: update_conv')

lemma add_reactive_done:
  assumes "map_of (nodes g) (Reaction rn) \<noteq> None"
  shows "reactive_done rn (add_reactive rn x g) x"
    and "reactive_done rn g y \<Longrightarrow> reactive_done rn (add_reactive rn x g) y"
    and "product_done rn g p \<Longrightarrow> product_done rn (add_reactive rn x g) p"
  unfolding reactive_done_def product_done_def add_reactive_maps[OF assms]
  by (auto simp: update_conv')

lemma add_product_done:
  assumes "map_of (nodes g) (Reaction rn) \<noteq> None"
  shows "product_done rn (add_product rn p g) p"
    and "reactive_done rn g y \<Longrightarrow> reactive_done rn (add_product rn p g) y"
    and "product_done rn g q \<Longrightarrow> product_done rn (add_product rn p g) q"
  unfolding reactive_done_def product_done_def add_product_maps[OF assms]
  by (auto simp: update_conv')

lemma add_reactive_keeps_reaction:
  assumes "map_of (nodes g) (Reaction rn) \<noteq> None"
  shows "map_of (nodes (add_reactive rn x g)) (Reaction rn) = map_of (nodes g) (Reaction rn)"
  unfolding add_reactive_maps[OF assms] by simp

lemma add_product_keeps_reaction:
  assumes "map_of (nodes g) (Reaction rn) \<noteq> None"
  shows "map_of (nodes (add_product rn p g)) (Reaction rn) = map_of (nodes g) (Reaction rn)"
  unfolding add_product_maps[OF assms] by simp

lemma fold_add_reactive_done:
  "map_of (nodes g) (Reaction rn) \<noteq> None \<Longrightarrow>
     map_of (nodes (fold (add_reactive rn) xs g)) (Reaction rn) = map_of (nodes g) (Reaction rn) \<and>
     (\<forall>x. x \<in> set xs \<or> reactive_done rn g x \<longrightarrow> reactive_done rn (fold (add_reactive rn) xs g) x) \<and>
     (\<forall>p. product_done rn g p \<longrightarrow> product_done rn (fold (add_reactive rn) xs g) p)"
proof (induction xs arbitrary: g)
  case Nil
  then show ?case by simp
next
  case (Cons a xs)
  let ?g = "add_reactive rn a g"
  have k: "map_of (nodes ?g) (Reaction rn) = map_of (nodes g) (Reaction rn)"
    by (rule add_reactive_keeps_reaction[OF Cons.prems])
  with Cons.prems have p: "map_of (nodes ?g) (Reaction rn) \<noteq> None" by simp
  from Cons.IH[OF p] k add_reactive_done[OF Cons.prems, where x = a]
  show ?case by (auto simp del: fun_upd_apply)
qed

lemma fold_add_product_done:
  "map_of (nodes g) (Reaction rn) \<noteq> None \<Longrightarrow>
     map_of (nodes (fold (add_product rn) ps g)) (Reaction rn) = map_of (nodes g) (Reaction rn) \<and>
     (\<forall>p. p \<in> set ps \<or> product_done rn g p \<longrightarrow> product_done rn (fold (add_product rn) ps g) p) \<and>
     (\<forall>x. reactive_done rn g x \<longrightarrow> reactive_done rn (fold (add_product rn) ps g) x)"
proof (induction ps arbitrary: g)
  case Nil
  then show ?case by simp
next
  case (Cons a ps)
  let ?g = "add_product rn a g"
  have k: "map_of (nodes ?g) (Reaction rn) = map_of (nodes g) (Reaction rn)"
    by (rule add_product_keeps_reaction[OF Cons.prems])
  with Cons.prems have p: "map_of (nodes ?g) (Reaction rn) \<noteq> None" by simp
  from Cons.IH[OF p] k add_product_done[OF Cons.prems, where p = a]
  show ?case by (auto simp del: fun_upd_apply)
qed


lemma add_reaction_eq:
  assumes "get_occurrences g (Reaction rn) = Inr (PyInt k)"
  shows "add_reaction g rn =
           Inr (insert_body rn (add_node g (Reaction rn) (reaction_attrs rn (k + 1))))"
  using assms by (simp add: add_reaction_def insert_body_def reaction_attrs_def Let_def)

lemma insert_body_keeps_reaction:
  assumes "map_of (nodes g) (Reaction rn) \<noteq> None"
  shows "map_of (nodes (insert_body rn g)) (Reaction rn) = map_of (nodes g) (Reaction rn)"
proof -
  let ?g' = "fold (add_reactive rn) (reactives rn) g"
  from fold_add_reactive_done[OF assms, of "reactives rn"]
  have 1: "map_of (nodes ?g') (Reaction rn) = map_of (nodes g) (Reaction rn)" by blast
  with assms have "map_of (nodes ?g') (Reaction rn) \<noteq> None" by simp
  from fold_add_product_done[OF this, of "products rn"] 1
  show ?thesis unfolding insert_body_def by simp
qed

lemma insert_body_idem:
  assumes "map_of (nodes g) (Reaction rn) \<noteq> None"
  shows "insert_body rn (insert_body rn g) = insert_body rn g"
proof -
  let ?g' = "fold (add_reactive rn) (reactives rn) g"
  let ?g'' = "fold (add_product rn) (products rn) ?g'"
  from fold_add_reactive_done[OF assms, of "reactives rn"]
  have r': "map_of (nodes ?g') (Reaction rn) \<noteq> None"
    and d': "\<And>x. x \<in> set (reactives rn) \<Longrightarrow> reactive_done rn ?g' x"
    using assms by auto
  from fold_add_product_done[OF r', of "products rn"]
  have r'': "map_of (nodes ?g'') (Reaction rn) \<noteq> None"
    and p'': "\<And>p. p \<in> set (products rn) \<Longrightarrow> product_done rn ?g'' p"
    and d'': "\<And>x. reactive_done rn ?g' x \<Longrightarrow> reactive_done rn ?g'' x"
    using r' by auto
  have 1: "fold (add_reactive rn) (reactives rn) ?g'' = ?g''"
    by (rule fold_fixed) (simp add: reactive_done_fixed[OF r''] d' d'')
  have 2: "fold (add_product rn) (products rn) ?g'' = ?g''"
    by (rule fold_fixed) (simp add: product_done_fixed[OF r''] p'')
  show ?thesis unfolding insert_body_def by (simp only: 1 2)
qed

lemma map_of_with_occurrences:
  "map_of (nodes (with_occurrences n k g)) m =
     (if m = n then map_option (AList.update ''occurrences'' (PyInt k)) (map_of (nodes g) n)
      else map_of (nodes g) m)"
proof -
  have "map_of (map (\<lambda>nd. if fst nd = n
                           then (fst nd, AList.update ''occurrences'' (PyInt k) (snd nd))
                           else nd) al) m =
     (if m = n then map_option (AList.update ''occurrences'' (PyInt k)) (map_of al n)
      else map_of al m)" for al :: "('a node \<times> attrs) list"
    by (induction al) auto
  then show ?thesis by (simp add: with_occurrences_def)
qed

lemma edges_with_occurrences: "edges (with_occurrences n k g) = edges g"
  by (simp add: with_occurrences_def)

lemma update_map_other:
  "m \<noteq> n \<Longrightarrow>
     AList.update m v (map (\<lambda>nd. if fst nd = n then (fst nd, h (snd nd)) else nd) al) =
     map (\<lambda>nd. if fst nd = n then (fst nd, h (snd nd)) else nd) (AList.update m v al)"
  by (induction al) auto

lemma add_reactive_with_occurrences:
  assumes "map_of (nodes g) (Reaction rn) \<noteq> None"
  shows "add_reactive rn x (with_occurrences (Reaction rn) k g) =
         with_occurrences (Reaction rn) k (add_reactive rn x g)"
proof -
  have p: "map_of (nodes (with_occurrences (Reaction rn) k g)) (Reaction rn) \<noteq> None"
    using assms by (simp add: map_of_with_occurrences)
  show ?thesis
    unfolding add_reactive_unfold[OF p] add_reactive_unfold[OF assms]
    by (simp add: map_of_with_occurrences edges_with_occurrences)
       (simp add: with_occurrences_def update_map_other)
qed

lemma add_product_with_occurrences:
  assumes "map_of (nodes g) (Reaction rn) \<noteq> None"
  shows "add_product rn p (with_occurrences (Reaction rn) k g) =
         with_occurrences (Reaction rn) k (add_product rn p g)"
proof -
  have q: "map_of (nodes (with_occurrences (Reaction rn) k g)) (Reaction rn) \<noteq> None"
    using assms by (simp add: map_of_with_occurrences)
  show ?thesis
    unfolding add_product_unfold[OF q] add_product_unfold[OF assms]
    by (simp add: map_of_with_occurrences edges_with_occurrences)
       (simp add: with_occurrences_def update_map_other)
qed

lemma fold_add_reactive_with_occurrences:
  "map_of (nodes g) (Reaction rn) \<noteq> None \<Longrightarrow>
     fold (add_reactive rn) xs (with_occurrences (Reaction rn) k g) =
     with_occurrences (Reaction rn) k (fold (add_reactive rn) xs g)"
proof (induction xs arbitrary: g)
  case Nil
  show ?case by simp
next
  case (Cons a xs)
  from Cons.prems have "map_of (nodes (add_reactive rn a g)) (Reaction rn) \<noteq> None"
    by (simp add: add_reactive_keeps_reaction)
  from Cons.IH[OF this] show ?case
    by (simp add: add_reactive_with_occurrences[OF Cons.prems])
qed

lemma fold_add_product_with_occurrences:
  "map_of (nodes g) (Reaction rn) \<noteq> None \<Longrightarrow>
     fold (add_product rn) ps (with_occurrences (Reaction rn) k g) =
     with_occurrences (Reaction rn) k (fold (add_product rn) ps g)"
proof (induction ps arbitrary: g)
  case Nil
  show ?case by simp
next
  case (Cons a ps)
  from Cons.prems have "map_of (nodes (add_product rn a g)) (Reaction rn) \<noteq> None"
    by (simp add: add_product_keeps_reaction)
  from Cons.IH[OF this] show ?case
    by (simp add: add_product_with_occurrences[OF Cons.prems])
qed

lemma insert_body_with_occurrences:
  assumes "map_of (nodes g) (Reaction rn) \<noteq> None"
  shows "insert_body rn (with_occurrences (Reaction rn) k g) =
         with_occurrences (Reaction rn) k (insert_body rn g)"
proof -
  from fold_add_reactive_done[OF assms, of "reactives rn"] assms
  have "map_of (nodes (fold (add_reactive rn) (reactives rn) g)) (Reaction rn) \<noteq> None" by simp
  then show ?thesis
    unfolding insert_body_def
    by (simp add: fold_add_reactive_with_occurrences[OF assms] fold_add_product_with_occurrences)
qed


lemma map_other_id:
  "n \<notin> fst ` set al \<Longrightarrow> map (\<lambda>nd. if fst nd = n then (fst nd, h (snd nd)) else nd) al = al"
  by (induction al) auto

lemma map_entry_update:
  "distinct (map fst al) \<Longrightarrow> map_of al n = Some d \<Longrightarrow>
     map (\<lambda>nd. if fst nd = n then (fst nd, h (snd nd)) else nd) al = AList.update n (h d) al"
proof (induction al)
  case Nil
  then show ?case by simp
next
  case (Cons a al)
  obtain m b where a: "a = (m, b)" by (cases a)
  show ?case
  proof (cases "m = n")
    case True
    with Cons.prems a have "b = d" and "n \<notin> fst ` set al" by auto
    with True a show ?thesis by (simp add: map_other_id)
  next
    case False
    with Cons a show ?thesis by simp
  qed
qed

lemma with_occurrences_eq:
  assumes "distinct (map fst (nodes g))"
    and "map_of (nodes g) (Reaction rn) = Some (reaction_attrs rn i)"
  shows "with_occurrences (Reaction rn) k g =
           g\<lparr>nodes := AList.update (Reaction rn) (reaction_attrs rn k) (nodes g)\<rparr>"
proof -
  have "AList.update ''occurrences'' (PyInt k) (reaction_attrs rn i) = reaction_attrs rn k"
    by (simp add: reaction_attrs_def)
  with map_entry_update[OF assms, of "AList.update ''occurrences'' (PyInt k)"]
  show ?thesis by (simp add: with_occurrences_def)
qed

lemma dict_update_reaction_attrs:
  "dict_update (reaction_attrs rn i) (reaction_attrs rn j) = reaction_attrs rn j"
  by (simp add: dict_update_def reaction_attrs_def)

lemma add_node_with_occurrences:
  assumes "distinct (map fst (nodes g))"
    and "map_of (nodes g) (Reaction rn) = Some (reaction_attrs rn i)"
  shows "add_node (with_occurrences (Reaction rn) k g) (Reaction rn) (reaction_attrs rn j) =
         with_occurrences (Reaction rn) j g"
  unfolding with_occurrences_eq[OF assms] add_node_def
  by (simp add: update_conv' dict_update_reaction_attrs)

lemma get_occurrences_with_occurrences:
  assumes "map_of (nodes g) (Reaction rn) = Some (reaction_attrs rn i)"
  shows "get_occurrences (with_occurrences (Reaction rn) k g) (Reaction rn) = Inr (PyInt k)"
  using assms
  by (simp add: get_occurrences_def get_node_attribute_def nodes_data_getitem_def dict_get_def
        map_of_with_occurrences reaction_attrs_def)

lemma first_insertion:
  fixes rn :: "'e reaction"
  defines "h \<equiv> insert_body rn (add_node reset (Reaction rn) (reaction_attrs rn 1))"
  shows "add_reaction reset rn = Inr h"
    and "map_of (nodes h) (Reaction rn) = Some (reaction_attrs rn 1)"
    and "distinct (map fst (nodes h))"
    and "insert_body rn h = h"
proof -
  let ?g0 = "add_node (reset :: 'e digraph) (Reaction rn) (reaction_attrs rn 1)"
  have o: "get_occurrences (reset :: 'e digraph) (Reaction rn) = Inr (PyInt 0)"
    by (simp add: get_occurrences_def get_node_attribute_def nodes_data_getitem_def dict_get_def
          reset_def)
  from add_reaction_eq[OF o] show a: "add_reaction reset rn = Inr h"
    by (simp add: h_def)
  have m0: "map_of (nodes ?g0) (Reaction rn) = Some (reaction_attrs rn 1)"
    by (simp add: add_node_def reset_def dict_update_def reaction_attrs_def)
  then have p0: "map_of (nodes ?g0) (Reaction rn) \<noteq> None" by simp
  from insert_body_keeps_reaction[OF p0] m0
  show "map_of (nodes h) (Reaction rn) = Some (reaction_attrs rn 1)" by (simp add: h_def)
  from add_reaction_wf[OF wf_graph_reset, of rn] a have "wf_graph h" by simp
  then show "distinct (map fst (nodes h))" by (simp add: wf_graph_def)
  show "insert_body rn h = h" unfolding h_def by (rule insert_body_idem[OF p0])
qed

lemma repeated_insertion:
  fixes rn :: "'e reaction"
  defines "h \<equiv> insert_body rn (add_node reset (Reaction rn) (reaction_attrs rn 1))"
  shows "add_reactions reset (replicate (Suc m) rn) =
           Inr (with_occurrences (Reaction rn) (int (Suc m)) h)"
proof (induction m)
  case 0
  note f = first_insertion[of rn, folded h_def]
  have "with_occurrences (Reaction rn) 1 h = h"
    unfolding with_occurrences_eq[OF f(3) f(2)] by (simp add: update_triv[OF f(2)])
  with f(1) show ?case by simp
next
  case (Suc m)
  note f = first_insertion[of rn, folded h_def]
  let ?k = "int (Suc m)"
  let ?gk = "with_occurrences (Reaction rn) ?k h"
  have p1: "map_of (nodes h) (Reaction rn) \<noteq> None" using f(2) by simp
  have "replicate (Suc (Suc m)) rn = replicate (Suc m) rn @ [rn]"
    using replicate_append_same[of "Suc m" rn] by simp
  then have "add_reactions reset (replicate (Suc (Suc m)) rn) = add_reaction ?gk rn"
    by (simp only: add_reactions_append Suc.IH) (simp split: sum.splits)
  also have "\<dots> = Inr (insert_body rn (add_node ?gk (Reaction rn) (reaction_attrs rn (?k + 1))))"
    by (rule add_reaction_eq[OF get_occurrences_with_occurrences[OF f(2)]])
  also have "add_node ?gk (Reaction rn) (reaction_attrs rn (?k + 1)) =
             with_occurrences (Reaction rn) (?k + 1) h"
    by (rule add_node_with_occurrences[OF f(3) f(2)])
  also have "insert_body rn (with_occurrences (Reaction rn) (?k + 1) h) =
             with_occurrences (Reaction rn) (?k + 1) (insert_body rn h)"
    by (rule insert_body_with_occurrences[OF p1])
  also have "insert_body rn h = h" by (rule f(4))
  also have "?k + 1 = int (Suc (Suc m))" by simp
  finally show ?case .
qed

text \<open>
  C4. Adding the same reaction \<open>k \<ge> 1\<close> times to the empty graph gives the graph of
  adding it once, with the same nodes in the same order, the same edges and the same
  attributes, except that the \<open>occurrences\<close> attribute of the reaction node is \<open>k\<close>; and
  \<open>get_occurrences\<close> returns \<open>k\<close>.
\<close>

theorem add_reaction_repeated:
  "1 \<le> k \<Longrightarrow>
     \<exists>once. add_reaction reset rn = Inr once \<and>
       add_reactions reset (replicate k rn) = Inr (with_occurrences (Reaction rn) (int k) once) \<and>
       get_occurrences (with_occurrences (Reaction rn) (int k) once) (Reaction rn) = Inr (PyInt (int k))"
proof -
  assume "1 \<le> k"
  then obtain m where k: "k = Suc m" by (cases k) auto
  note f = first_insertion[of rn]
  from f(1) repeated_insertion[of m rn] get_occurrences_with_occurrences[OF f(2)]
  show ?thesis unfolding k by blast
qed

theorem add_reaction_repeated_witness:
  "(1::nat) \<le> 3 \<and> add_reaction reset r1 = Inr g1 \<and>
   add_reactions reset [r1, r1, r1] = Inr (with_occurrences (Reaction r1) 3 g1) \<and>
   get_occurrences (with_occurrences (Reaction r1) 3 g1) (Reaction r1) = Inr (PyInt 3)"
proof -
  have k: "(1::nat) \<le> 3" by simp
  have a: "add_reaction reset r1 = Inr g1" by code_simp
  have r: "replicate 3 r1 = [r1, r1, r1]" by (simp add: numeral_3_eq_3)
  from add_reaction_repeated[OF k, of r1] a r
  have "add_reactions reset [r1, r1, r1] = Inr (with_occurrences (Reaction r1) 3 g1) \<and>
        get_occurrences (with_occurrences (Reaction r1) 3 g1) (Reaction r1) = Inr (PyInt 3)"
    by auto
  with k a show ?thesis by (intro conjI) simp_all
qed

section \<open>Distances\<close>

lemma successors_set: "set (successors g v) = edge_rel g `` {v}"
  by (force simp: successors_def edge_rel_def)

lemma predecessors_set: "set (predecessors g v) = {u. (u, v) \<in> edge_rel g}"
  by (force simp: predecessors_def edge_rel_def)

lemma at_dist_dist: "m \<in> at_dist g n k \<Longrightarrow> dist g n m = k"
  unfolding at_dist_def dist_def
  by (rule Least_equality) (auto simp: not_less[symmetric])

lemma within_at_dist:
  assumes "m \<in> within g n k"
  shows "\<exists>j\<le>k. m \<in> at_dist g n j"
proof -
  from assms obtain j where j: "j \<le> k" "(n, m) \<in> edge_rel g ^^ j" by (auto simp: within_def)
  define j0 where "j0 = (LEAST i. (n, m) \<in> edge_rel g ^^ i)"
  from j(2) have 1: "(n, m) \<in> edge_rel g ^^ j0" unfolding j0_def by (rule LeastI)
  from j(2) have 2: "j0 \<le> j" unfolding j0_def by (rule Least_le)
  have 3: "\<forall>i<j0. (n, m) \<notin> edge_rel g ^^ i"
    unfolding j0_def using not_less_Least by blast
  from 1 3 have "m \<in> at_dist g n j0" by (simp add: at_dist_def)
  with 2 j(1) show ?thesis by (meson le_trans)
qed

lemma at_dist_within: "at_dist g n k \<subseteq> within g n k"
  by (auto simp: at_dist_def within_def)

lemma within_mono: "j \<le> k \<Longrightarrow> within g n j \<subseteq> within g n k"
  by (auto simp: within_def intro: le_trans)

lemma at_dist_Suc: "at_dist g n (Suc k) = edge_rel g `` at_dist g n k - within g n k"
proof (intro set_eqI iffI)
  fix m assume m: "m \<in> at_dist g n (Suc k)"
  then have w: "(n, m) \<in> edge_rel g ^^ Suc k" and s: "\<And>j. j < Suc k \<Longrightarrow> (n, m) \<notin> edge_rel g ^^ j"
    by (simp_all add: at_dist_def)
  from w obtain u where u: "(n, u) \<in> edge_rel g ^^ k" "(u, m) \<in> edge_rel g" by auto
  have "\<forall>j<k. (n, u) \<notin> edge_rel g ^^ j"
  proof (intro allI impI notI)
    fix j assume "j < k" "(n, u) \<in> edge_rel g ^^ j"
    with u(2) have "(n, m) \<in> edge_rel g ^^ Suc j" by auto
    with s[of "Suc j"] \<open>j < k\<close> show False by simp
  qed
  with u(1) have "u \<in> at_dist g n k" by (simp add: at_dist_def)
  with u(2) have 1: "m \<in> edge_rel g `` at_dist g n k" by blast
  from s have 2: "m \<notin> within g n k" by (auto simp: within_def)
  from 1 2 show "m \<in> edge_rel g `` at_dist g n k - within g n k" by simp
next
  fix m assume "m \<in> edge_rel g `` at_dist g n k - within g n k"
  then obtain u where u: "u \<in> at_dist g n k" "(u, m) \<in> edge_rel g" and nw: "m \<notin> within g n k"
    by blast
  from u have "(n, m) \<in> edge_rel g ^^ Suc k" by (auto simp: at_dist_def)
  moreover from nw have "\<forall>j<Suc k. (n, m) \<notin> edge_rel g ^^ j" by (auto simp: within_def)
  ultimately show "m \<in> at_dist g n (Suc k)" by (simp add: at_dist_def)
qed

lemma within_Suc: "within g n (Suc k) = within g n k \<union> at_dist g n (Suc k)"
proof (intro set_eqI iffI)
  fix m assume "m \<in> within g n (Suc k)"
  from within_at_dist[OF this] obtain j where j: "j \<le> Suc k" "m \<in> at_dist g n j" by blast
  show "m \<in> within g n k \<union> at_dist g n (Suc k)"
  proof (cases "j = Suc k")
    case True
    with j show ?thesis by simp
  next
    case False
    with j(1) have "j \<le> k" by simp
    with j(2) at_dist_within[of g n j] within_mono[of j k g n] show ?thesis by blast
  qed
next
  fix m assume "m \<in> within g n k \<union> at_dist g n (Suc k)"
  with within_mono[of k "Suc k" g n] at_dist_within[of g n "Suc k"]
  show "m \<in> within g n (Suc k)" by auto
qed

lemma at_dist_empty_later: "at_dist g n k = {} \<Longrightarrow> at_dist g n (k + i) = {}"
proof (induction i)
  case 0
  then show ?case by simp
next
  case (Suc i)
  then have "at_dist g n (k + i) = {}" by simp
  then show ?case by (simp add: at_dist_Suc)
qed

lemma reachable_within:
  assumes "at_dist g n k = {}" and "reachable g n m"
  shows "m \<in> within g n k"
proof -
  from assms(2) obtain j where "(n, m) \<in> edge_rel g ^^ j"
    unfolding reachable_def by (auto dest: rtrancl_imp_relpow)
  then have "m \<in> within g n j" by (auto simp: within_def)
  from within_at_dist[OF this] obtain j0 where j0: "m \<in> at_dist g n j0" by blast
  show ?thesis
  proof (cases "j0 \<le> k")
    case True
    with j0 at_dist_within[of g n j0] within_mono[of j0 k g n] show ?thesis by blast
  next
    case False
    then have "j0 = k + (j0 - k)" by simp
    with at_dist_empty_later[OF assms(1), of "j0 - k"] have "at_dist g n j0 = {}" by simp
    with j0 show ?thesis by simp
  qed
qed

lemma within_reachable: "m \<in> within g n k \<Longrightarrow> reachable g n m"
  unfolding within_def reachable_def by (auto intro: relpow_imp_rtrancl)


section \<open>The breadth-first search finds the shortest paths\<close>

lemma round_inv_start: "distinct (map fst ps) \<Longrightarrow> round_inv ps k {} (ps, [])"
  by (simp add: round_inv_def)

lemma round_inv_visit:
  assumes inv: "round_inv ps k W st" and len: "length pv = k + 1"
  shows "round_inv ps k (insert w W) (visit pv w st)"
proof -
  obtain pc nc where st: "st = (pc, nc)" by (cases st)
  from inv st obtain news where n: "pc = ps @ news" "map fst news = nc" "distinct (map fst pc)"
    "set nc = W - fst ` set ps" "\<forall>wp \<in> set news. length (snd wp) = k + 2"
    by (auto simp: round_inv_def)
  have keys: "fst ` set pc = fst ` set ps \<union> set nc"
    unfolding n(1) n(2)[symmetric] by (simp add: image_Un)
  show ?thesis
  proof (cases "w \<in> fst ` set pc")
    case True
    then have v: "visit pv w st = (pc, nc)" by (simp add: st visit_simps(1))
    from True keys n(4) have "set nc = insert w W - fst ` set ps" by blast
    with n(1,2,3,5) show ?thesis unfolding v round_inv_def by auto
  next
    case False
    then have v: "visit pv w st = (pc @ [(w, pv @ [w])], nc @ [w])"
      by (simp add: st visit_simps(2))
    from False keys have wps: "w \<notin> fst ` set ps" by blast
    have 1: "pc @ [(w, pv @ [w])] = ps @ (news @ [(w, pv @ [w])])" by (simp add: n(1))
    have 2: "map fst (news @ [(w, pv @ [w])]) = nc @ [w]" by (simp add: n(2))
    have 3: "distinct (map fst (pc @ [(w, pv @ [w])]))" using n(3) False by simp
    have 4: "set (nc @ [w]) = insert w W - fst ` set ps" using n(4) wps by auto
    have 5: "\<forall>wp \<in> set (news @ [(w, pv @ [w])]). length (snd wp) = k + 2"
      using n(5) len by simp
    show ?thesis unfolding v round_inv_def fst_conv snd_conv
      by (rule exI[of _ "news @ [(w, pv @ [w])]"]) (intro conjI 1 2 3 4 5)
  qed
qed

lemma round_inv_fold_visit:
  "round_inv ps k W st \<Longrightarrow> length pv = k + 1 \<Longrightarrow>
     round_inv ps k (W \<union> set ws) (fold (visit pv) ws st)"
proof (induction ws arbitrary: W st)
  case Nil
  then show ?case by simp
next
  case (Cons w ws)
  from round_inv_visit[OF Cons.prems] have "round_inv ps k (insert w W) (visit pv w st)" .
  from Cons.IH[OF this Cons.prems(2)] show ?case by simp
qed

lemma round_inv_path_of:
  assumes "round_inv ps k W st" and "v \<in> fst ` set ps"
  shows "path_of (fst st) v = path_of ps v"
proof -
  from assms(1) obtain news where "fst st = ps @ news" by (auto simp: round_inv_def)
  moreover from assms(2) obtain p where "map_of ps v = Some p"
    by (cases "map_of ps v") (auto simp: map_of_eq_None_iff)
  ultimately show ?thesis by (simp add: path_of_def map_add_def)
qed

lemma round_inv_expand:
  assumes inv: "round_inv ps k W st" and v: "v \<in> fst ` set ps"
    and len: "length (path_of ps v) = k + 1"
  shows "round_inv ps k (W \<union> edge_rel g `` {v}) (expand g v st)"
proof -
  from round_inv_path_of[OF inv v] len have "length (path_of (fst st) v) = k + 1" by simp
  from round_inv_fold_visit[OF inv this, of "successors g v"]
  show ?thesis by (simp add: expand_def successors_set)
qed

lemma round_inv_fold_expand:
  "round_inv ps k W st \<Longrightarrow>
     (\<And>v. v \<in> set vs \<Longrightarrow> v \<in> fst ` set ps \<and> length (path_of ps v) = k + 1) \<Longrightarrow>
     round_inv ps k (W \<union> edge_rel g `` set vs) (fold (expand g) vs st)"
proof (induction vs arbitrary: W st)
  case Nil
  then show ?case by simp
next
  case (Cons v vs)
  from Cons.prems(2)[of v] have v: "v \<in> fst ` set ps" "length (path_of ps v) = k + 1" by simp_all
  from round_inv_expand[OF Cons.prems(1) v]
  have 1: "round_inv ps k (W \<union> edge_rel g `` {v}) (expand g v st)" .
  have 2: "\<And>u. u \<in> set vs \<Longrightarrow> u \<in> fst ` set ps \<and> length (path_of ps u) = k + 1"
    using Cons.prems(2) by simp
  have 3: "W \<union> edge_rel g `` {v} \<union> edge_rel g `` set vs = W \<union> edge_rel g `` set (v # vs)"
    by auto
  from Cons.IH[OF 1 2] show ?case by (simp add: 3)
qed

lemma path_of_distinct:
  "distinct (map fst ps) \<Longrightarrow> (v, p) \<in> set ps \<Longrightarrow> path_of ps v = p"
  by (simp add: path_of_def)

lemma level_inv_step:
  assumes inv: "level_inv g n k nl ps"
    and f: "fold (expand g) nl (ps, []) = (ps', nl')"
  shows "level_inv g n (Suc k) nl' ps'"
proof -
  from inv have d: "distinct (map fst ps)" and keys: "fst ` set ps = within g n k"
    and lens: "\<And>m p. (m, p) \<in> set ps \<Longrightarrow> length p = dist g n m + 1"
    and nl: "set nl = at_dist g n k"
    by (auto simp: level_inv_def)
  have front: "v \<in> fst ` set ps \<and> length (path_of ps v) = k + 1" if "v \<in> set nl" for v
  proof -
    from that nl have a: "v \<in> at_dist g n k" by simp
    with at_dist_within[of g n k] keys have in_ps: "v \<in> fst ` set ps" by blast
    then obtain p where p: "(v, p) \<in> set ps" by auto
    from lens[OF p] at_dist_dist[OF a] have "length p = k + 1" by simp
    with path_of_distinct[OF d p] in_ps show ?thesis by simp
  qed
  from round_inv_fold_expand[OF round_inv_start[OF d, of k], of nl g] front f
  have "round_inv ps k (edge_rel g `` set nl) (ps', nl')" by simp
  then obtain news where n: "ps' = ps @ news" "map fst news = nl'" "distinct (map fst ps')"
    "set nl' = edge_rel g `` set nl - fst ` set ps" "\<forall>wp \<in> set news. length (snd wp) = k + 2"
    by (auto simp: round_inv_def)
  from n(4) have nl': "set nl' = at_dist g n (Suc k)" by (simp add: nl keys at_dist_Suc)
  have keys': "fst ` set ps' = within g n (Suc k)"
  proof -
    have "fst ` set ps' = fst ` set ps \<union> set nl'"
      unfolding n(1) n(2)[symmetric] by (simp add: image_Un)
    then show ?thesis by (simp add: keys nl' within_Suc)
  qed
  have lens': "length (snd mp) = dist g n (fst mp) + 1" if "mp \<in> set ps'" for mp
  proof (cases "mp \<in> set ps")
    case True
    with lens[of "fst mp" "snd mp"] show ?thesis by simp
  next
    case False
    with that n(1) have in_news: "mp \<in> set news" by simp
    then have "fst mp \<in> set nl'" using n(2) by force
    with nl' have "dist g n (fst mp) = Suc k" by (simp add: at_dist_dist)
    with n(5) in_news show ?thesis by simp
  qed
  from n(3) keys' lens' nl' show ?thesis by (simp add: level_inv_def)
qed

lemma level_inv_result:
  "level_inv g n k nl ps \<Longrightarrow>
     distinct (map fst (single_shortest_path g nl ps)) \<and>
     fst ` set (single_shortest_path g nl ps) = {m. reachable g n m} \<and>
     (\<forall>mp \<in> set (single_shortest_path g nl ps). length (snd mp) = dist g n (fst mp) + 1)"
proof (induction g nl ps arbitrary: k rule: single_shortest_path.induct)
  case (1 g nextlevel paths)
  show ?case
  proof (cases "nextlevel = []")
    case True
    then have r: "single_shortest_path g nextlevel paths = paths"
      by (subst single_shortest_path.simps) simp
    from "1.prems" True have e: "at_dist g n k = {}" by (simp add: level_inv_def)
    from "1.prems" have keys: "fst ` set paths = within g n k" by (simp add: level_inv_def)
    have "fst ` set paths = {m. reachable g n m}"
      unfolding keys using reachable_within[OF e] within_reachable[of _ g n k] by blast
    with "1.prems" show ?thesis unfolding r by (simp add: level_inv_def)
  next
    case False
    obtain ps' nl' where f: "fold (expand g) nextlevel (paths, []) = (ps', nl')"
      by (cases "fold (expand g) nextlevel (paths, [])")
    from False f have r: "single_shortest_path g nextlevel paths = single_shortest_path g nl' ps'"
      by (subst single_shortest_path.simps) simp
    from level_inv_step[OF "1.prems" f] have "level_inv g n (Suc k) nl' ps'" .
    from "1.IH"[OF False f[symmetric] this] show ?thesis unfolding r .
  qed
qed

lemma level_inv_start: "level_inv g n 0 [n] [(n, [n])]"
proof -
  have "dist g n n = 0" unfolding dist_def by (rule Least_equality) simp_all
  then show ?thesis by (auto simp: level_inv_def within_def at_dist_def)
qed

lemma shortest_path_correct:
  "distinct (map fst (shortest_path g n))"
  "fst ` set (shortest_path g n) = {m. reachable g n m}"
  "(m, p) \<in> set (shortest_path g n) \<Longrightarrow> length p = dist g n m + 1"
  using level_inv_result[OF level_inv_start, of g n] unfolding shortest_path_def by auto


section \<open>The estimator returns the level of the specification\<close>

lemma takeWhile_hits:
  assumes "y \<in> set xs"
  shows "length (takeWhile (\<lambda>x. x \<noteq> y) xs) < length xs \<and>
         xs ! length (takeWhile (\<lambda>x. x \<noteq> y) xs) = y"
  using assms
proof (induction xs)
  case Nil
  then show ?case by simp
next
  case (Cons a xs)
  then show ?case by (cases "a = y") auto
qed

lemma argmin_nth:
  assumes "xs \<noteq> []"
  shows "\<exists>i. argmin xs = Inr i \<and> i < length xs \<and> xs ! i = Min (set xs)"
proof -
  from assms have "Min (set xs) \<in> set xs" by (intro Min_in) simp_all
  from takeWhile_hits[OF this] assms show ?thesis by (simp add: argmin_def)
qed

lemma node_cycle_length_eq:
  "node_cycle_length g n =
     (if cycle_predecessors g n = {} then None else Some (minimal_cycle g n))"
proof -
  let ?sp = "shortest_path g n"
  let ?cps = "filter (\<lambda>n0. n0 \<in> fst ` set ?sp) (predecessors g n)"
  let ?paths = "map (path_of ?sp) ?cps"
  have set_cps: "set ?cps = cycle_predecessors g n"
    by (auto simp: cycle_predecessors_def shortest_path_correct(2))
  have len: "length (path_of ?sp n0) = dist g n n0 + 1" if "n0 \<in> set ?cps" for n0
  proof -
    from that obtain p where p: "(n0, p) \<in> set ?sp" by auto
    from path_of_distinct[OF shortest_path_correct(1) p] shortest_path_correct(3)[OF p]
    show ?thesis by simp
  qed
  then have lens: "map length ?paths = map (\<lambda>n0. dist g n n0 + 1) ?cps" by simp
  have unf: "node_cycle_length g n =
      (case argmin (map length ?paths) of Inl e \<Rightarrow> None | Inr i \<Rightarrow> Some (length (?paths ! i)))"
    by (simp add: node_cycle_length_def Let_def)
  show ?thesis
  proof (cases "?cps = []")
    case True
    with set_cps have "cycle_predecessors g n = {}" by (metis set_empty)
    moreover from True have "node_cycle_length g n = None"
      unfolding unf by (simp add: argmin_def)
    ultimately show ?thesis by simp
  next
    case False
    with set_cps have ne: "cycle_predecessors g n \<noteq> {}" by (metis set_empty)
    from False have "map length ?paths \<noteq> []" by simp
    from argmin_nth[OF this] obtain i where i: "argmin (map length ?paths) = Inr i"
      "i < length (map length ?paths)" "map length ?paths ! i = Min (set (map length ?paths))"
      by blast
    from i(2) have "i < length ?paths" by simp
    then have "length (?paths ! i) = map length ?paths ! i" by (rule nth_map[symmetric])
    also have "\<dots> = Min (set (map length ?paths))" by (rule i(3))
    also have "set (map length ?paths) = (\<lambda>n0. dist g n n0 + 1) ` cycle_predecessors g n"
      unfolding lens by (simp only: set_map set_cps)
    finally have "length (?paths ! i) = minimal_cycle g n" by (simp add: minimal_cycle_def)
    with i(1) ne show ?thesis unfolding unf by simp
  qed
qed

lemma set_map_filter_Some:
  "set (List.map_filter f xs) = {y. \<exists>x \<in> set xs. f x = Some y}"
  by (induction xs) (auto split: option.splits)

lemma cycle_lengths_set:
  "set (List.map_filter (node_cycle_length g) (map fst (nodes g))) =
     minimal_cycle g ` nodes_on_cycles g"
proof -
  have "{y. \<exists>n \<in> set (map fst (nodes g)). node_cycle_length g n = Some y} =
        minimal_cycle g ` nodes_on_cycles g"
    unfolding node_cycle_length_eq nodes_on_cycles_def
    by (auto split: if_splits)
  then show ?thesis by (simp only: set_map_filter_Some)
qed

text \<open>
  C5. \<open>get_maximal_cycle_length\<close> returns \<open>\<lfloor>(L + 1) / 2\<rfloor>\<close>, where the minimal cycle
  through a node \<open>n\<close> is the least, over the predecessors \<open>n0\<close> of \<open>n\<close> that can be reached
  from \<open>n\<close>, of the shortest-path length from \<open>n\<close> to \<open>n0\<close> plus one for the edge from
  \<open>n0\<close> to \<open>n\<close>, and \<open>L\<close> is the greatest minimal cycle over the nodes that have one; it
  returns \<open>0\<close> when no node has one.
\<close>

theorem get_maximal_cycle_length_level:
  "get_maximal_cycle_length g = raf_level g"
proof -
  let ?cl = "List.map_filter (node_cycle_length g) (map fst (nodes g))"
  have s: "set ?cl = minimal_cycle g ` nodes_on_cycles g" by (rule cycle_lengths_set)
  show ?thesis
  proof (cases "?cl = []")
    case True
    with s have "nodes_on_cycles g = {}" by simp
    with True show ?thesis
      by (simp add: get_maximal_cycle_length_def raf_level_def argmax_def)
  next
    case False
    with s have "nodes_on_cycles g \<noteq> {}" by auto
    with False s show ?thesis
      by (simp add: get_maximal_cycle_length_def raf_level_def argmax_def)
  qed
qed

theorem get_maximal_cycle_length_level_witness:
  "get_maximal_cycle_length g12 = 2 \<and> raf_level g12 = 2 \<and>
   get_maximal_cycle_length g1 = 0 \<and> raf_level g1 = 0"
proof -
  have a: "get_maximal_cycle_length g12 = 2" by code_simp
  have b: "get_maximal_cycle_length g1 = 0" by code_simp
  from a b get_maximal_cycle_length_level[of g12] get_maximal_cycle_length_level[of g1]
  show ?thesis by simp
qed

end
